theory Spec2Isabelle
  imports Main "HOL-Library.Sublist"
begin

section \<open>smallsh: a shallow embedding of \<^verbatim>\<open>smallsh.c\<close>\<close>

text \<open>
  The shell of \<^verbatim>\<open>smallsh.c\<close> is embedded function by function. Every C function
  that a property below talks about becomes a HOL function of the same name over the state
  it reads and writes; loops become recursive functions over the loop index; reads and
  writes outside an array bound become the error value \<open>OutOfBounds\<close>; the operating
  system (\<^verbatim>\<open>fork\<close>, \<^verbatim>\<open>waitpid\<close>, \<^verbatim>\<open>open\<close>, \<^verbatim>\<open>execvp\<close>, \<^verbatim>\<open>getpid\<close>,
  \<^verbatim>\<open>getline\<close>, signal delivery, the content of a block returned by \<^verbatim>\<open>malloc\<close>) is a
  parameter of the functions that call it.
  C strings are lists of characters without the terminating NUL; a \<^verbatim>\<open>char*\<close> that may
  be \<^verbatim>\<open>NULL\<close> is a \<open>string option\<close>.
\<close>

subsection \<open>Errors and \<^verbatim>\<open>printf("%d")\<close>\<close>

text \<open>
  \<open>OutOfBounds\<close>: an access outside an array of the program (undefined behaviour in C).
  \<open>string_of_int\<close> is the decimal rendering that \<^verbatim>\<open>printf("%d", n)\<close> and
  \<^verbatim>\<open>sprintf(s, "%d", n)\<close> produce; \<open>string_of_nat\<close> is its restriction to the
  non-negative numbers, where \<^verbatim>\<open>getpid()\<close> lies.
\<close>

datatype error = OutOfBounds

fun digit_char :: "nat \<Rightarrow> char" where
  "digit_char n = ''0123456789'' ! n"

fun string_of_nat :: "nat \<Rightarrow> string" where
  "string_of_nat n =
     (if n < 10 then [digit_char n] else string_of_nat (n div 10) @ [digit_char (n mod 10)])"

declare string_of_nat.simps [simp del]

definition string_of_int :: "int \<Rightarrow> string" where
  "string_of_int i = (if i < 0 then CHR ''-'' # string_of_nat (nat (- i)) else string_of_nat (nat i))"

subsection \<open>The background process array (\<^verbatim>\<open>struct processArray\<close>)\<close>

text \<open>
  \<^verbatim>\<open>typedef struct processArray { int capacity; int size; int * array; } processes;\<close>
  The heap block behind \<^verbatim>\<open>array\<close> is the list \<open>array\<close>; the field \<^verbatim>\<open>size\<close> is
  written \<open>size'\<close>. Both counters are C \<^verbatim>\<open>int\<close>s; they are modelled as unbounded
  integers, as the array would need more than \<open>2^30\<close> live children before
  \<^verbatim>\<open>capacity * 2\<close> could leave the range of \<^verbatim>\<open>int\<close>.
\<close>

record processes =
  capacity :: int
  size' :: int
  array :: "int list"

text \<open>The three \<^verbatim>\<open>for\<close> loops that fill, copy and compact the array, over the loop index.\<close>

definition zero_fill :: "nat \<Rightarrow> nat \<Rightarrow> int list \<Rightarrow> int list" where
  "zero_fill m n a = fold (\<lambda>i b. b[i := 0]) [m..<n] a"

definition copy_over :: "int list \<Rightarrow> nat \<Rightarrow> int list \<Rightarrow> int list" where
  "copy_over src n dst = fold (\<lambda>i b. b[i := src ! i]) [0..<n] dst"

definition shift_down :: "int list \<Rightarrow> nat \<Rightarrow> nat \<Rightarrow> int list" where
  "shift_down a i cap = fold (\<lambda>j b. b[j - 1 := b ! j]) [i + 1..<cap] a"

text \<open>
  \<^verbatim>\<open>malloc(sizeof(int) * n)\<close> returns a block of \<open>n\<close> slots whose content is
  indeterminate. The content is the parameter \<open>block\<close> of each function that calls
  \<^verbatim>\<open>malloc\<close>: slot \<open>i\<close> of the new block holds \<open>block i\<close>, whatever that is.
  \<open>stale\<close> is one such content, without a 0 in any slot; the evaluations below use it.
\<close>

definition malloc :: "(nat \<Rightarrow> int) \<Rightarrow> nat \<Rightarrow> int list" where
  "malloc block n = map block [0..<n]"

definition stale :: "nat \<Rightarrow> int" where
  "stale i = int i + 100"

text \<open>
  \<^verbatim>\<open>createProcessArray\<close>: capacity 10, size 0, a new block for the array, every slot of
  which the loop sets to 0.
\<close>

definition createProcessArray :: "(nat \<Rightarrow> int) \<Rightarrow> processes" where
  "createProcessArray block =
     (let cap = 10 in
      \<lparr>capacity = cap, size' = 0,
       array = zero_fill 0 (nat cap) (malloc block (nat cap))\<rparr>)"

text \<open>
  \<^verbatim>\<open>doubleCapacity\<close>: a new block of twice the capacity is zeroed by the first loop, the
  old slots are copied over by the second, the capacity is doubled.
\<close>

definition doubleCapacity :: "(nat \<Rightarrow> int) \<Rightarrow> processes \<Rightarrow> processes" where
  "doubleCapacity block proc =
     (let zeroed = zero_fill 0 (nat (capacity proc * 2)) (malloc block (nat (capacity proc * 2)));
          newArray = copy_over (array proc) (nat (capacity proc)) zeroed
      in proc\<lparr>array := newArray, capacity := capacity proc * 2\<rparr>)"

text \<open>
  \<^verbatim>\<open>processesAdd\<close>: doubles when \<^verbatim>\<open>capacity == size\<close>, zeroes the slots from
  \<^verbatim>\<open>size\<close> on again, then stores \<^verbatim>\<open>val\<close> in the first slot that contains 0
  (\<open>add_loop\<close> is the \<^verbatim>\<open>while\<close> loop; it returns unchanged when no slot is 0).
  The parameter \<open>block\<close> is the content of the block that \<^verbatim>\<open>malloc\<close> returns in
  \<^verbatim>\<open>doubleCapacity\<close>, if that is called.
\<close>

function add_loop :: "processes \<Rightarrow> int \<Rightarrow> nat \<Rightarrow> processes" where
  "add_loop proc val index =
     (if int index < capacity proc then
        (if array proc ! index = 0
         then proc\<lparr>array := (array proc)[index := val], size' := size' proc + 1\<rparr>
         else add_loop proc val (index + 1))
      else proc)"
  by pat_completeness auto
termination
  by (relation "measure (\<lambda>(proc, val, index). nat (capacity proc) - index)") auto

declare add_loop.simps [simp del]

definition processesAdd :: "(nat \<Rightarrow> int) \<Rightarrow> processes \<Rightarrow> int \<Rightarrow> processes" where
  "processesAdd block proc val =
     (let proc1 =
        (if capacity proc = size' proc then
           (let d = doubleCapacity block proc
            in d\<lparr>array := zero_fill (nat (size' d)) (nat (capacity d)) (array d)\<rparr>)
         else proc)
      in add_loop proc1 val 0)"

text \<open>
  \<^verbatim>\<open>processesRemove\<close>: the outer loop (\<open>remove_loop\<close>) looks for the first slot equal
  to \<^verbatim>\<open>val\<close> among all \<^verbatim>\<open>capacity\<close> slots; the inner loop (\<open>shift_down\<close>) moves
  every later slot one place down; slot \<^verbatim>\<open>j - 1\<close> (the last one) is set to 0 and the
  size decremented. Nothing changes when \<^verbatim>\<open>val\<close> is absent.
\<close>

function remove_loop :: "processes \<Rightarrow> int \<Rightarrow> nat \<Rightarrow> processes" where
  "remove_loop proc val i =
     (if int i < capacity proc then
        (if array proc ! i = val
         then (let shifted = shift_down (array proc) i (nat (capacity proc));
                   j = max (i + 1) (nat (capacity proc))
               in proc\<lparr>array := shifted[j - 1 := 0], size' := size' proc - 1\<rparr>)
         else remove_loop proc val (i + 1))
      else proc)"
  by pat_completeness auto
termination
  by (relation "measure (\<lambda>(proc, val, i). nat (capacity proc) - i)") auto

declare remove_loop.simps [simp del]

definition processesRemove :: "processes \<Rightarrow> int \<Rightarrow> processes" where
  "processesRemove proc val = remove_loop proc val 0"

text \<open>
  Enumeration, as \<^verbatim>\<open>cleanupProcs\<close> does it: the slots \<^verbatim>\<open>array[0 .. size - 1]\<close>.
\<close>

definition live :: "processes \<Rightarrow> int list" where
  "live procs = take (nat (size' procs)) (array procs)"

subsection \<open>The reaper (\<^verbatim>\<open>cleanupProcs\<close>)\<close>

text \<open>
  The decoded \<^verbatim>\<open>results\<close> word of \<^verbatim>\<open>waitpid\<close>: \<^verbatim>\<open>WIFEXITED\<close> with
  \<^verbatim>\<open>WEXITSTATUS\<close>, or \<^verbatim>\<open>WIFSIGNALED\<close> with \<^verbatim>\<open>WTERMSIG\<close>. The shell never passes
  \<^verbatim>\<open>WUNTRACED\<close>, so a child that \<^verbatim>\<open>waitpid\<close> reports has terminated in one of
  these two ways.
\<close>

datatype wstatus = WExited int | WSignaled int

text \<open>The two \<^verbatim>\<open>printf\<close> calls that report a finished background job.\<close>

fun done_message :: "int \<Rightarrow> wstatus \<Rightarrow> string list" where
  "done_message pid (WExited code) =
     [''background pid '' @ string_of_int pid @ '' is done: '',
      ''exit value '' @ string_of_int code @ [CHR 0x0A]]"
| "done_message pid (WSignaled code) =
     [''background pid '' @ string_of_int pid @ '' is done: '',
      ''terminated by signal '' @ string_of_int code @ [CHR 0x0A]]"

text \<open>
  \<^verbatim>\<open>cleanupProcs\<close>: the parameter \<open>waitpid\<close> is the operating system's answer to
  \<^verbatim>\<open>waitpid(pid, &results, WNOHANG)\<close>: \<open>Some results\<close> when the call returns \<open>pid\<close>
  (the child has terminated), \<open>None\<close> when it returns 0 or -1. After a removal the C loop
  executes \<^verbatim>\<open>i--\<close> and then \<^verbatim>\<open>++i\<close>, that is, it examines the same index again.
  Termination needs that the removal of \<^verbatim>\<open>array[i]\<close> always decrements the size.
\<close>

lemma remove_loop_size:
  assumes "i < nat (capacity proc)" "array proc ! i = val" "j \<le> i"
  shows "size' (remove_loop proc val j) = size' proc - 1"
  using assms(3)
proof (induction "i - j" arbitrary: j)
  case 0
  then have "j = i" by simp
  moreover have "int i < capacity proc" using assms(1) by linarith
  ultimately show ?case
    using assms(2) by (subst remove_loop.simps) (simp add: Let_def)
next
  case (Suc d)
  then have lt: "j < i" by simp
  then have "int j < capacity proc" using assms(1) by linarith
  moreover have "size' (remove_loop proc val (j + 1)) = size' proc - 1"
    using Suc lt by (intro Suc.hyps(1)) auto
  ultimately show ?case
    by (subst remove_loop.simps) (simp add: Let_def)
qed

lemma processesRemove_size:
  "int i < capacity procs \<Longrightarrow>
   size' (processesRemove procs (array procs ! i)) = size' procs - 1"
  unfolding processesRemove_def by (rule remove_loop_size[of i]) auto

function cleanup_loop ::
  "(int \<Rightarrow> wstatus option) \<Rightarrow> processes \<Rightarrow> nat \<Rightarrow> string list \<Rightarrow> error + processes \<times> string list"
where
  "cleanup_loop waitpid procs i out =
     (if int i < size' procs then
        (if \<not> (i < length (array procs) \<and> int i < capacity procs) then Inl OutOfBounds
         else
           (case waitpid (array procs ! i) of
              Some results \<Rightarrow>
                cleanup_loop waitpid (processesRemove procs (array procs ! i)) i
                  (out @ done_message (array procs ! i) results)
            | None \<Rightarrow> cleanup_loop waitpid procs (i + 1) out))
      else Inr (procs, out))"
  by pat_completeness auto
termination
  by (relation "measure (\<lambda>(waitpid, procs, i, out). nat (size' procs - int i))")
     (auto simp: processesRemove_size)

declare cleanup_loop.simps [simp del]

definition cleanupProcs ::
  "(int \<Rightarrow> wstatus option) \<Rightarrow> processes \<Rightarrow> string list \<Rightarrow> error + processes \<times> string list" where
  "cleanupProcs waitpid procs out = cleanup_loop waitpid procs 0 out"

subsection \<open>The global variables and the \<^verbatim>\<open>SIGTSTP\<close> handler\<close>

text \<open>
  The file-scope variables of \<^verbatim>\<open>smallsh.c\<close>. The six \<^verbatim>\<open>int\<close> flags only ever hold
  \<^verbatim>\<open>TRUE\<close> (1) or \<^verbatim>\<open>FALSE\<close> (0) and are booleans here; on such a value
  \<^verbatim>\<open>background_allowed ^= 1\<close> is negation. The two file-name buffers are strings. The field
  \<open>stdout\<close> is not a C variable: it records what the shell process has written to its
  standard output, one element for each \<^verbatim>\<open>write\<close> or flushed \<^verbatim>\<open>printf\<close>.
\<close>

record globals =
  background_allowed :: bool
  previous_background_allowed :: bool
  inputRedirectionFlag :: bool
  outputRedirectionFlag :: bool
  backgroundFlag :: bool
  foregroundProcessRunning :: bool
  inputRedirectionFileName :: string
  outputRedirectionFileName :: string
  stdout :: "string list"

definition initial_globals :: globals where
  "initial_globals =
     \<lparr>background_allowed = True, previous_background_allowed = True,
      inputRedirectionFlag = False, outputRedirectionFlag = False, backgroundFlag = False,
      foregroundProcessRunning = False,
      inputRedirectionFileName = [], outputRedirectionFileName = [], stdout = []\<rparr>"

text \<open>
  \<^verbatim>\<open>shellCatchSIGTSTP\<close> flips \<^verbatim>\<open>background_allowed\<close>, returns at once while a foreground
  process is being waited for, and otherwise writes the message of the new mode, followed by a
  prompt character, and records the mode as reported. \<^verbatim>\<open>displayBGMessage\<close> compares the mode
  with the one last reported and prints the message of the mode when they differ. The handler is
  installed with a full signal mask, so one run of it is one step.
\<close>

definition mode_message :: "bool \<Rightarrow> string" where
  "mode_message allowed =
     (if allowed = False
      then CHR 0x0A # ''Entering foreground-only mode (& is now ignored)'' @ [CHR 0x0A]
      else CHR 0x0A # ''Exiting foreground-only mode'' @ [CHR 0x0A])"

definition shellCatchSIGTSTP :: "globals \<Rightarrow> globals" where
  "shellCatchSIGTSTP g =
     (let g1 = g\<lparr>background_allowed := \<not> background_allowed g\<rparr> in
      if foregroundProcessRunning g1 = True then g1
      else
        (let message = mode_message (background_allowed g1) @ '':'' in
         g1\<lparr>stdout := stdout g1 @ [message],
            previous_background_allowed := background_allowed g1\<rparr>))"

definition displayBGMessage :: "globals \<Rightarrow> globals" where
  "displayBGMessage g =
     (if background_allowed g = previous_background_allowed g then g
      else g\<lparr>stdout := stdout g @ [mode_message (background_allowed g)],
             previous_background_allowed := background_allowed g\<rparr>)"

text \<open>
  The three lines around the blocking \<^verbatim>\<open>waitpid\<close> of \<^verbatim>\<open>spawnProcess\<close>: the flag
  \<^verbatim>\<open>foregroundProcessRunning\<close> is set, \<open>stops\<close> deliveries of \<^verbatim>\<open>SIGTSTP\<close> run the handler
  while the shell is blocked, the flag is cleared.
\<close>

definition foreground_wait :: "nat \<Rightarrow> globals \<Rightarrow> globals" where
  "foreground_wait stops g =
     ((shellCatchSIGTSTP ^^ stops) (g\<lparr>foregroundProcessRunning := True\<rparr>))
       \<lparr>foregroundProcessRunning := False\<rparr>"

subsection \<open>The tokenizer (\<^verbatim>\<open>getArgs\<close>)\<close>

text \<open>
  The argument array \<^verbatim>\<open>char** args\<close> has \<^verbatim>\<open>MAX_NUMBER_ARGS\<close> slots; \<^verbatim>\<open>clearArgs\<close>
  and \<^verbatim>\<open>initializeArgs\<close> set all of them to \<^verbatim>\<open>NULL\<close>.
\<close>

definition MAX_NUMBER_ARGS :: nat where
  "MAX_NUMBER_ARGS = 512"

definition ARBITRARY_MAX_WORD_LENGTH :: nat where
  "ARBITRARY_MAX_WORD_LENGTH = 200"

type_synonym args = "string option list"

definition clearArgs :: "args \<Rightarrow> args" where
  "clearArgs args = fold (\<lambda>i a. a[i := None]) [0..<MAX_NUMBER_ARGS] args"

definition initializeArgs :: args where
  "initializeArgs = fold (\<lambda>i a. a[i := None]) [0..<MAX_NUMBER_ARGS] (replicate MAX_NUMBER_ARGS None)"

text \<open>
  \<^verbatim>\<open>getArgs\<close>: the loop over the characters of the line. A character that is neither a
  space nor a tab is appended to the current word; a space or a tab stores the current word
  (empty or not) in the next slot and starts a new one; the end of the line stores the last word.
  The current word lives in a buffer of \<^verbatim>\<open>ARBITRARY_MAX_WORD_LENGTH\<close> bytes: writing its
  character or its terminator at index 200 is out of bounds, as is a store beyond the last slot.
\<close>

fun getArgs_loop :: "string \<Rightarrow> args \<Rightarrow> nat \<Rightarrow> string \<Rightarrow> error + args" where
  "getArgs_loop [] args argsIndex currWord =
     (if ARBITRARY_MAX_WORD_LENGTH \<le> length currWord \<or> length args \<le> argsIndex
      then Inl OutOfBounds
      else Inr (args[argsIndex := Some currWord]))"
| "getArgs_loop (c # promptInput) args argsIndex currWord =
     (if ARBITRARY_MAX_WORD_LENGTH \<le> length currWord then Inl OutOfBounds
      else if c \<noteq> CHR '' '' \<and> c \<noteq> CHR 0x09
      then getArgs_loop promptInput args argsIndex (currWord @ [c])
      else if length args \<le> argsIndex then Inl OutOfBounds
      else getArgs_loop promptInput (args[argsIndex := Some currWord]) (argsIndex + 1) [])"

definition getArgs :: "string \<Rightarrow> args \<Rightarrow> error + args" where
  "getArgs promptInput args = getArgs_loop promptInput (clearArgs args) 0 []"

text \<open>
  The argument vector that a \<^verbatim>\<open>NULL\<close>-terminated array denotes (what \<^verbatim>\<open>execvp\<close> and the
  loop of \<^verbatim>\<open>parseArgs\<close> see): the words before the first \<^verbatim>\<open>NULL\<close>.
\<close>

definition argv :: "args \<Rightarrow> string list" where
  "argv args = map the (takeWhile (\<lambda>a. a \<noteq> None) args)"

subsection \<open>The directive parser (\<^verbatim>\<open>parseArgs\<close>)\<close>

text \<open>\<^verbatim>\<open>isWord\<close>: not \<^verbatim>\<open>NULL\<close>, not empty, and not one of the words \<^verbatim>\<open><\<close>, \<^verbatim>\<open>>\<close>, \<^verbatim>\<open>&\<close>.\<close>

definition isWord :: "string option \<Rightarrow> bool" where
  "isWord word =
     (case word of
        None \<Rightarrow> False
      | Some [] \<Rightarrow> False
      | Some (c # cs) \<Rightarrow>
          (if (c = CHR ''<'' \<or> c = CHR ''>'' \<or> c = CHR ''&'') \<and> cs = [] then False else True))"

text \<open>
  \<^verbatim>\<open>argsFilterDown\<close> moves the pointer at \<^verbatim>\<open>examineIndex\<close> down to \<^verbatim>\<open>actualIndex\<close>
  and increments both. Its test \<^verbatim>\<open>args[*actualIndex] != args[*examineIndex]\<close> compares
  pointers: the slot at \<^verbatim>\<open>examineIndex\<close> is not \<^verbatim>\<open>NULL\<close> and every slot is a block of
  its own, so the pointers differ exactly when the indices do.
\<close>

definition argsFilterDown :: "args \<Rightarrow> nat \<Rightarrow> nat \<Rightarrow> args \<times> nat \<times> nat" where
  "argsFilterDown args actualIndex examineIndex =
     ((if actualIndex \<noteq> examineIndex
       then args[actualIndex := args ! examineIndex, examineIndex := None]
       else args),
      actualIndex + 1, examineIndex + 1)"

text \<open>
  \<^verbatim>\<open>replaceDoubleDollars\<close>: the loop runs while \<^verbatim>\<open>arg[index]\<close> and \<^verbatim>\<open>arg[index + 1]\<close>
  are not the terminator; at the first index where both are \<^verbatim>\<open>$\<close> it builds the new string
  (the characters before, the pid, the characters after the two) and returns.
\<close>

function replaceDoubleDollars_loop :: "string \<Rightarrow> string \<Rightarrow> nat \<Rightarrow> string" where
  "replaceDoubleDollars_loop pidString arg index =
     (if index < length arg \<and> index + 1 < length arg then
        (if arg ! index = CHR ''$'' \<and> arg ! (index + 1) = CHR ''$''
         then take index arg @ pidString @ drop (index + 2) arg
         else replaceDoubleDollars_loop pidString arg (index + 1))
      else arg)"
  by pat_completeness auto
termination
  by (relation "measure (\<lambda>(pidString, arg, index). length arg - index)") auto

declare replaceDoubleDollars_loop.simps [simp del]

definition replaceDoubleDollars :: "nat \<Rightarrow> string \<Rightarrow> string" where
  "replaceDoubleDollars getpid arg = replaceDoubleDollars_loop (string_of_nat getpid) arg 0"

text \<open>
  The loop of \<^verbatim>\<open>parseArgs\<close> terminates because the branch for the word \<^verbatim>\<open>$$\<close>, which does
  not advance, leaves a decimal number behind, and that is not \<^verbatim>\<open>$$\<close> again.
\<close>

lemma digit_char_not_dollar: "n < 10 \<Longrightarrow> digit_char n \<noteq> CHR ''$''"
proof -
  assume "n < 10"
  then have "n \<in> {0, 1, 2, 3, 4, 5, 6, 7, 8, 9}" by auto
  then show ?thesis by (auto simp: numeral_nat)
qed

lemma string_of_nat_digits: "set (string_of_nat n) \<subseteq> digit_char ` {..<10}"
proof (induction n rule: string_of_nat.induct)
  case (1 n)
  show ?case
  proof (cases "n < 10")
    case True
    then show ?thesis by (subst string_of_nat.simps) auto
  next
    case False
    have "n mod 10 < 10" by simp
    then show ?thesis
      using 1 False by (subst string_of_nat.simps) auto
  qed
qed

lemma string_of_nat_no_dollar: "CHR ''$'' \<notin> set (string_of_nat n)"
proof
  assume "CHR ''$'' \<in> set (string_of_nat n)"
  then obtain k where "k < 10" "digit_char k = CHR ''$''"
    using string_of_nat_digits[of n] by (auto simp del: digit_char.simps)
  then show False
    using digit_char_not_dollar by blast
qed

lemma string_of_nat_not_marker: "string_of_nat n \<noteq> ''$$''"
  using string_of_nat_no_dollar[of n] by auto

text \<open>
  \<^verbatim>\<open>parseArgs\<close>: the \<^verbatim>\<open>while\<close> loop with its five branches, in the order of the source,
  and the final \<^verbatim>\<open>args[actualIndex] = NULL\<close>. The copy of a file name into its buffer of
  \<^verbatim>\<open>ARBITRARY_MAX_WORD_LENGTH\<close> bytes is out of bounds for a name of 200 characters or more.
\<close>

function parseArgs_loop ::
  "nat \<Rightarrow> globals \<Rightarrow> args \<Rightarrow> nat \<Rightarrow> nat \<Rightarrow> error + (args \<times> nat \<times> globals)" where
  "parseArgs_loop getpid g args actualIndex examineIndex =
     (if length args \<le> examineIndex then Inl OutOfBounds
      else
        (case args ! examineIndex of
           None \<Rightarrow> Inr (args, actualIndex, g)
         | Some word \<Rightarrow>
             if word = ''<'' then
               (if length args \<le> examineIndex + 1 then Inl OutOfBounds
                else if isWord (args ! (examineIndex + 1)) then
                  (case args ! (examineIndex + 1) of
                     None \<Rightarrow> Inl OutOfBounds
                   | Some name \<Rightarrow>
                       if ARBITRARY_MAX_WORD_LENGTH \<le> length name then Inl OutOfBounds
                       else parseArgs_loop getpid
                              (g\<lparr>inputRedirectionFlag := True, inputRedirectionFileName := name\<rparr>)
                              args actualIndex (examineIndex + 2))
                else
                  (case argsFilterDown args actualIndex examineIndex of
                     (args', actualIndex', examineIndex') \<Rightarrow>
                       parseArgs_loop getpid g args' actualIndex' examineIndex'))
             else if word = ''>'' then
               (if length args \<le> examineIndex + 1 then Inl OutOfBounds
                else if isWord (args ! (examineIndex + 1)) then
                  (case args ! (examineIndex + 1) of
                     None \<Rightarrow> Inl OutOfBounds
                   | Some name \<Rightarrow>
                       if ARBITRARY_MAX_WORD_LENGTH \<le> length name then Inl OutOfBounds
                       else parseArgs_loop getpid
                              (g\<lparr>outputRedirectionFlag := True, outputRedirectionFileName := name\<rparr>)
                              args actualIndex (examineIndex + 2))
                else
                  (case argsFilterDown args actualIndex examineIndex of
                     (args', actualIndex', examineIndex') \<Rightarrow>
                       parseArgs_loop getpid g args' actualIndex' examineIndex'))
             else if word = ''$$'' then
               parseArgs_loop getpid g (args[examineIndex := Some (string_of_nat getpid)])
                 actualIndex examineIndex
             else if word = ''&'' then
               (if length args \<le> examineIndex + 1 then Inl OutOfBounds
                else if args ! (examineIndex + 1) = None then
                  (let g1 = g\<lparr>backgroundFlag := True\<rparr>;
                       g2 = (if background_allowed g1 = False
                             then g1\<lparr>backgroundFlag := False\<rparr> else g1)
                   in parseArgs_loop getpid g2 args actualIndex (examineIndex + 1))
                else
                  (case argsFilterDown args actualIndex examineIndex of
                     (args', actualIndex', examineIndex') \<Rightarrow>
                       parseArgs_loop getpid g args' actualIndex' examineIndex'))
             else
               (case argsFilterDown (args[examineIndex := Some (replaceDoubleDollars getpid word)])
                       actualIndex examineIndex of
                  (args', actualIndex', examineIndex') \<Rightarrow>
                    parseArgs_loop getpid g args' actualIndex' examineIndex')))"
  by pat_completeness auto
termination
  by (relation "measure (\<lambda>(getpid, g, args, actualIndex, examineIndex).
        2 * (length args - examineIndex) +
        (if examineIndex < length args \<and> args ! examineIndex = Some ''$$'' then 1 else 0))")
     (auto simp: argsFilterDown_def string_of_nat_not_marker)

declare parseArgs_loop.simps [simp del]

definition parseArgs :: "nat \<Rightarrow> globals \<Rightarrow> args \<Rightarrow> error + (args \<times> globals)" where
  "parseArgs getpid g args =
     (case parseArgs_loop getpid g args 0 0 of
        Inl e \<Rightarrow> Inl e
      | Inr (args', actualIndex, g') \<Rightarrow> Inr (args'[actualIndex := None], g'))"

text \<open>The two calls \<^verbatim>\<open>getArgs(promptInput, args); parseArgs(args);\<close> of \<^verbatim>\<open>main\<close>.\<close>

definition parse_line :: "nat \<Rightarrow> globals \<Rightarrow> string \<Rightarrow> error + (string list \<times> globals)" where
  "parse_line getpid g promptInput =
     (case getArgs promptInput initializeArgs of
        Inl e \<Rightarrow> Inl e
      | Inr args \<Rightarrow>
          (case parseArgs getpid g args of
             Inl e \<Rightarrow> Inl e
           | Inr (args', g') \<Rightarrow> Inr (argv args', g')))"

subsection \<open>The child process of \<^verbatim>\<open>spawnProcess\<close>\<close>

text \<open>
  What the child changes before \<^verbatim>\<open>execvp\<close>: the disposition of \<^verbatim>\<open>SIGTSTP\<close>
  (inherited from the shell: its handler), the files behind its descriptors 0 and 1
  (\<open>None\<close>: inherited from the shell), and what it prints. The child ends by
  \<^verbatim>\<open>exit\<close> or by a successful \<^verbatim>\<open>execvp\<close> with an argument vector.
\<close>

datatype disposition = SIG_DFL | SIG_IGN | SIG_HANDLER

datatype oflag = O_RDONLY | O_WRONLY_CREAT_TRUNC | O_WRONLY_CREAT

datatype fd = Fd string oflag | NoFd

record child =
  sigtstp :: disposition
  fd0 :: "fd option"
  fd1 :: "fd option"
  child_stdout :: "string list"

datatype child_end = Exit int | Exec "string list"

definition forked_child :: child where
  "forked_child = \<lparr>sigtstp = SIG_HANDLER, fd0 = None, fd1 = None, child_stdout = []\<rparr>"

text \<open>
  \<^verbatim>\<open>open\<close> returns a descriptor or -1 (\<open>NoFd\<close>), as the parameter \<open>can_open\<close> decides;
  \<^verbatim>\<open>dup2\<close> of the descriptor -1 fails and changes nothing. \<open>add32\<close> is
  \<^verbatim>\<open>errorString[0] += 32\<close>.
\<close>

definition os_open :: "(string \<Rightarrow> oflag \<Rightarrow> bool) \<Rightarrow> string \<Rightarrow> oflag \<Rightarrow> fd" where
  "os_open can_open path flags = (if can_open path flags then Fd path flags else NoFd)"

definition dup2_0 :: "fd \<Rightarrow> child \<Rightarrow> child" where
  "dup2_0 oldfd c = (case oldfd of NoFd \<Rightarrow> c | Fd path flags \<Rightarrow> c\<lparr>fd0 := Some oldfd\<rparr>)"

definition dup2_1 :: "fd \<Rightarrow> child \<Rightarrow> child" where
  "dup2_1 oldfd c = (case oldfd of NoFd \<Rightarrow> c | Fd path flags \<Rightarrow> c\<lparr>fd1 := Some oldfd\<rparr>)"

definition add32 :: "string \<Rightarrow> string" where
  "add32 s = (case s of [] \<Rightarrow> [] | c # cs \<Rightarrow> char_of (of_char c + (32::nat)) # cs)"

text \<open>
  \<^verbatim>\<open>case 0\<close> of \<^verbatim>\<open>spawnProcess\<close>. The parameter \<open>execvp\<close> is the answer of the operating
  system to \<^verbatim>\<open>execvp(args[0], args)\<close>: \<open>None\<close> when the program is started, the text of
  \<^verbatim>\<open>strerror(errno)\<close> when the call returns -1.
\<close>

definition spawnProcess_child ::
  "(string \<Rightarrow> oflag \<Rightarrow> bool) \<Rightarrow> (string list \<Rightarrow> string option) \<Rightarrow> globals \<Rightarrow> args \<Rightarrow> child
     \<Rightarrow> child_end \<times> child" where
  "spawnProcess_child can_open execvp g args c0 =
     (let c1 = c0\<lparr>sigtstp := SIG_IGN\<rparr>;
          input =
            (if inputRedirectionFlag g then
               (let inputFile = os_open can_open (inputRedirectionFileName g) O_RDONLY in
                if inputFile = NoFd
                then Inl (c1\<lparr>child_stdout := child_stdout c1 @
                       [''cannot open '' @ inputRedirectionFileName g @ '' for input'' @ [CHR 0x0A]]\<rparr>)
                else Inr (dup2_0 inputFile c1))
             else if backgroundFlag g then
               Inr (dup2_0 (os_open can_open ''/dev/null'' O_RDONLY) c1)
             else Inr c1)
      in case input of
           Inl c \<Rightarrow> (Exit 1, c)
         | Inr c2 \<Rightarrow>
             (let c3 =
                (if outputRedirectionFlag g then
                   dup2_1 (os_open can_open (outputRedirectionFileName g) O_WRONLY_CREAT_TRUNC) c2
                 else if backgroundFlag g then
                   dup2_1 (os_open can_open ''/dev/null'' O_WRONLY_CREAT) c2
                 else c2)
              in case execvp (argv args) of
                   None \<Rightarrow> (Exec (argv args), c3)
                 | Some errorString \<Rightarrow>
                     (Exit 1,
                      c3\<lparr>child_stdout := child_stdout c3 @
                        [(case args ! 0 of None \<Rightarrow> ''(null)'' | Some prog \<Rightarrow> prog) @ '': '' @
                         add32 errorString @ [CHR 0x0A]]\<rparr>)))"

subsection \<open>The parent side of \<^verbatim>\<open>spawnProcess\<close> and the loop of \<^verbatim>\<open>main\<close>\<close>

text \<open>
  \<^verbatim>\<open>struct Results { int code; int sig; }\<close>, and the state of \<^verbatim>\<open>main\<close>: the globals and
  the locals \<^verbatim>\<open>status\<close>, \<^verbatim>\<open>procs\<close> and \<^verbatim>\<open>args\<close>. \<^verbatim>\<open>result status;\<close> is declared
  without an initialiser: \<open>main_status\<close> is \<open>None\<close> until the first assignment to its fields.
  Three fields are not C variables: the calls of \<^verbatim>\<open>chdir\<close> made, what was written to the
  standard error, and the number of foreground \<^verbatim>\<open>waitpid\<close> calls that have returned.
  The record \<open>os\<close> collects the answers of the operating system during one iteration
  (\<open>os_malloc\<close>: the content of the block that \<^verbatim>\<open>malloc\<close> returns).
\<close>

record result =
  code :: int
  sig :: bool

definition status_message :: "result \<Rightarrow> string" where
  "status_message status =
     (if sig status = False then ''exit value '' @ string_of_int (code status) @ [CHR 0x0A]
      else ''terminated by signal '' @ string_of_int (code status) @ [CHR 0x0A])"

record shell =
  main_globals :: globals
  main_status :: "result option"
  main_procs :: processes
  main_args :: args
  chdir_calls :: "string option list"
  stderr :: "string list"
  foreground_waits :: nat

datatype spawned = Parent shell | Child child_end child

record os =
  os_waitpid_nohang :: "int \<Rightarrow> wstatus option"
  os_getline_failures :: nat
  os_getline :: string
  os_fork :: int
  os_malloc :: "nat \<Rightarrow> int"
  os_sigtstp_during_wait :: nat
  os_waitpid :: "wstatus option"
  os_can_open :: "string \<Rightarrow> oflag \<Rightarrow> bool"
  os_execvp :: "string list \<Rightarrow> string option"

text \<open>
  \<^verbatim>\<open>spawnProcess\<close>: \<^verbatim>\<open>fork\<close> returns -1 (\<^verbatim>\<open>perror\<close>), 0 (this process is the
  child) or the pid of the child. The local \<^verbatim>\<open>int results = 0\<close> decodes to a normal exit
  with value 0 when \<^verbatim>\<open>waitpid\<close> fails and leaves it unchanged.
\<close>

definition spawnProcess :: "os \<Rightarrow> shell \<Rightarrow> spawned" where
  "spawnProcess os sh =
     (let pid = os_fork os; g = main_globals sh in
      if pid = - 1 then
        Parent (sh\<lparr>stderr := stderr sh @ [''fork() failed.'' @ [CHR 0x0A]]\<rparr>)
      else if pid = 0 then
        (case spawnProcess_child (os_can_open os) (os_execvp os) g (main_args sh) forked_child of
           (ended, c) \<Rightarrow> Child ended c)
      else if backgroundFlag g then
        Parent (sh\<lparr>main_globals := g\<lparr>stdout := stdout g @
                   [''background pid is '' @ string_of_int pid @ [CHR 0x0A]]\<rparr>,
                 main_procs := processesAdd (os_malloc os) (main_procs sh) pid\<rparr>)
      else
        (let g1 = foreground_wait (os_sigtstp_during_wait os) g;
             results = (case os_waitpid os of None \<Rightarrow> WExited 0 | Some r \<Rightarrow> r);
             sh1 = sh\<lparr>foreground_waits := foreground_waits sh + 1\<rparr>
         in case results of
              WExited c \<Rightarrow>
                Parent (sh1\<lparr>main_globals := g1, main_status := Some \<lparr>code = c, sig = False\<rparr>\<rparr>)
            | WSignaled s \<Rightarrow>
                Parent (sh1\<lparr>main_globals := g1\<lparr>stdout := stdout g1 @
                           [''terminated by signal '' @ string_of_int s @ [CHR 0x0A]]\<rparr>,
                         main_status := Some \<lparr>code = s, sig = True\<rparr>\<rparr>)))"

text \<open>
  \<^verbatim>\<open>prompt\<close>: \<^verbatim>\<open>displayBGMessage\<close> and the prompt character, once and again after each
  failed \<^verbatim>\<open>getline\<close>; the line is cut at its first newline.
\<close>

definition prompt_once :: "globals \<Rightarrow> globals" where
  "prompt_once g = (let g1 = displayBGMessage g in g1\<lparr>stdout := stdout g1 @ ['':'']\<rparr>)"

definition prompt :: "os \<Rightarrow> globals \<Rightarrow> string \<times> globals" where
  "prompt os g =
     (takeWhile (\<lambda>c. c \<noteq> CHR 0x0A) (os_getline os),
      (prompt_once ^^ (os_getline_failures os)) (prompt_once g))"

text \<open>\<^verbatim>\<open>isBuiltIn\<close>: the index of the word in \<^verbatim>\<open>builtInCommands\<close>, or the comment code, or -1.\<close>

definition builtInCommands :: "string list" where
  "builtInCommands = [''cd'', ''status'', ''exit'']"

definition CD_CODE :: int where
  "CD_CODE = 0"

definition STATUS_CODE :: int where
  "STATUS_CODE = 1"

definition EXIT_CODE :: int where
  "EXIT_CODE = 2"

definition COMMENT_CODE :: int where
  "COMMENT_CODE = 3"

fun isBuiltIn_loop :: "string \<Rightarrow> string list \<Rightarrow> int \<Rightarrow> int" where
  "isBuiltIn_loop userInput [] i = - 1"
| "isBuiltIn_loop userInput (command # commands) i =
     (if userInput = command then i else isBuiltIn_loop userInput commands (i + 1))"

definition isBuiltIn :: "string option \<Rightarrow> int" where
  "isBuiltIn userInput =
     (case userInput of
        None \<Rightarrow> COMMENT_CODE
      | Some [] \<Rightarrow> COMMENT_CODE
      | Some (c # cs) \<Rightarrow>
          if c = CHR ''#'' then COMMENT_CODE else isBuiltIn_loop (c # cs) builtInCommands 0)"

text \<open>
  \<^verbatim>\<open>resetFlags\<close>, and the body of \<^verbatim>\<open>case STATUS_CODE\<close>. The parameter \<open>uninitialised\<close>
  is the content of the stack slot of \<^verbatim>\<open>status\<close> at program start, which the C standard
  leaves indeterminate; it is what the case reads as long as \<^verbatim>\<open>status\<close> was never assigned.
\<close>

definition resetFlags :: "globals \<Rightarrow> globals" where
  "resetFlags g = g\<lparr>inputRedirectionFlag := False, outputRedirectionFlag := False,
                     backgroundFlag := False\<rparr>"

definition status_builtin :: "result \<Rightarrow> shell \<Rightarrow> shell" where
  "status_builtin uninitialised sh =
     (let status = (case main_status sh of None \<Rightarrow> uninitialised | Some written \<Rightarrow> written)
      in sh\<lparr>main_globals :=
               (main_globals sh)\<lparr>stdout := stdout (main_globals sh) @ [status_message status]\<rparr>\<rparr>)"

text \<open>
  The state of \<^verbatim>\<open>main\<close> at the entry of its loop (the line with the pid of the shell has
  been written, \<^verbatim>\<open>status\<close> has not), one iteration of \<^verbatim>\<open>while(TRUE)\<close>, and a run of
  iterations. An iteration continues with a new state, ends the shell (\<^verbatim>\<open>exit(0)\<close> of the
  exit command), or finds itself in the child of \<^verbatim>\<open>fork\<close>, which never returns to the loop.
  \<^verbatim>\<open>changeDirectory\<close> calls \<^verbatim>\<open>chdir\<close> with its argument, or with the value of
  \<^verbatim>\<open>HOME\<close> when the argument is \<^verbatim>\<open>NULL\<close>: \<open>chdir_calls\<close> records the argument.
\<close>

datatype step = Continue shell | Exited | InChild child_end child

definition main_init :: "nat \<Rightarrow> (nat \<Rightarrow> int) \<Rightarrow> shell" where
  "main_init getpid block =
     \<lparr>main_globals = initial_globals\<lparr>stdout :=
        [''shallsh pid: '' @ string_of_nat getpid @ [CHR 0x0A]]\<rparr>,
      main_status = None, main_procs = createProcessArray block,
      main_args = initializeArgs, chdir_calls = [], stderr = [], foreground_waits = 0\<rparr>"

definition dispatch :: "result \<Rightarrow> os \<Rightarrow> shell \<Rightarrow> step" where
  "dispatch uninitialised os sh =
     (let commandCode = isBuiltIn (main_args sh ! 0) in
      if commandCode = EXIT_CODE then Exited
      else
        (case (if commandCode = CD_CODE then
                 Parent (sh\<lparr>chdir_calls := chdir_calls sh @ [main_args sh ! 1]\<rparr>)
               else if commandCode = STATUS_CODE then Parent (status_builtin uninitialised sh)
               else if commandCode = COMMENT_CODE then Parent sh
               else spawnProcess os sh) of
           Parent sh' \<Rightarrow> Continue (sh'\<lparr>main_globals := resetFlags (main_globals sh')\<rparr>)
         | Child ended c \<Rightarrow> InChild ended c))"

definition main_step :: "result \<Rightarrow> nat \<Rightarrow> os \<Rightarrow> shell \<Rightarrow> error + step" where
  "main_step uninitialised getpid os sh =
     (case cleanupProcs (os_waitpid_nohang os) (main_procs sh) (stdout (main_globals sh)) of
        Inl e \<Rightarrow> Inl e
      | Inr (procs1, out1) \<Rightarrow>
          (case prompt os ((main_globals sh)\<lparr>stdout := out1\<rparr>) of
             (promptInput, g2) \<Rightarrow>
               (case getArgs promptInput (main_args sh) of
                  Inl e \<Rightarrow> Inl e
                | Inr args1 \<Rightarrow>
                    (case parseArgs getpid g2 args1 of
                       Inl e \<Rightarrow> Inl e
                     | Inr (args2, g3) \<Rightarrow>
                         Inr (dispatch uninitialised os
                                (sh\<lparr>main_globals := g3, main_procs := procs1,
                                    main_args := args2\<rparr>))))))"

fun run_main :: "result \<Rightarrow> nat \<Rightarrow> os list \<Rightarrow> shell \<Rightarrow> error + step" where
  "run_main uninitialised getpid [] sh = Inr (Continue sh)"
| "run_main uninitialised getpid (os # oss) sh =
     (case main_step uninitialised getpid os sh of
        Inr (Continue sh') \<Rightarrow> run_main uninitialised getpid oss sh'
      | other \<Rightarrow> other)"

text \<open>An operating system that delivers a line, reports no finished child and lets \<^verbatim>\<open>fork\<close> fail.\<close>

definition idle_os :: "string \<Rightarrow> os" where
  "idle_os line = \<lparr>os_waitpid_nohang = (\<lambda>pid. None), os_getline_failures = 0,
     os_getline = line, os_fork = - 1, os_malloc = stale, os_sigtstp_during_wait = 0,
     os_waitpid = None, os_can_open = (\<lambda>path flags. False), os_execvp = (\<lambda>av. None)\<rparr>"

section \<open>Views of the model used in the statements and proofs\<close>

subsection \<open>Histories of the process array\<close>

text \<open>
  A history is a list of calls, an add together with the content of the block that
  \<^verbatim>\<open>malloc\<close> returns during it; \<open>pids_after\<close> is the list of pids that are live after it
  (added and not yet removed), and \<open>valid_ops\<close> says that the history only adds pids that
  are non-zero and not live, and only removes live pids, as the shell does (a pid returned by
  \<^verbatim>\<open>fork\<close> is positive and differs from that of every child not yet reaped).
\<close>

datatype reg_op = Add "nat \<Rightarrow> int" int | Remove int

fun apply_op :: "processes \<Rightarrow> reg_op \<Rightarrow> processes" where
  "apply_op procs (Add block pid) = processesAdd block procs pid"
| "apply_op procs (Remove pid) = processesRemove procs pid"

fun run_ops :: "processes \<Rightarrow> reg_op list \<Rightarrow> processes" where
  "run_ops procs [] = procs"
| "run_ops procs (op # ops) = run_ops (apply_op procs op) ops"

fun pids_after :: "int list \<Rightarrow> reg_op list \<Rightarrow> int list" where
  "pids_after xs [] = xs"
| "pids_after xs (Add block pid # ops) = pids_after (xs @ [pid]) ops"
| "pids_after xs (Remove pid # ops) = pids_after (remove1 pid xs) ops"

fun valid_ops :: "int list \<Rightarrow> reg_op list \<Rightarrow> bool" where
  "valid_ops xs [] = True"
| "valid_ops xs (Add block pid # ops) =
     (pid \<noteq> 0 \<and> pid \<notin> set xs \<and> valid_ops (xs @ [pid]) ops)"
| "valid_ops xs (Remove pid # ops) = (pid \<in> set xs \<and> valid_ops (remove1 pid xs) ops)"

text \<open>
  \<open>stores procs xs\<close>: the array contains exactly the pids \<open>xs\<close>, in its first \<open>size'\<close>
  slots, and 0 in every other slot.
\<close>

definition stores :: "processes \<Rightarrow> int list \<Rightarrow> bool" where
  "stores procs xs \<longleftrightarrow>
     0 < capacity procs \<and> size' procs = int (length xs) \<and> size' procs \<le> capacity procs \<and>
     array procs = xs @ replicate (nat (capacity procs) - length xs) 0 \<and>
     0 \<notin> set xs \<and> distinct xs"

text \<open>What \<^verbatim>\<open>cleanupProcs\<close> prints for a list of pids, in order.\<close>

fun reports :: "(int \<Rightarrow> wstatus option) \<Rightarrow> int list \<Rightarrow> string list" where
  "reports waitpid [] = []"
| "reports waitpid (pid # pids) =
     (case waitpid pid of Some results \<Rightarrow> done_message pid results @ reports waitpid pids
      | None \<Rightarrow> reports waitpid pids)"

subsection \<open>The tokenizer and the parser on lists of words\<close>

text \<open>
  \<open>split_words\<close> is the loop of \<^verbatim>\<open>getArgs\<close> without the array: the list of the words it
  stores. \<open>short\<close>: every word fits the buffers. \<open>adjacent_blanks\<close>: two separators in a row.
\<close>

definition blank :: "char \<Rightarrow> bool" where
  "blank c \<longleftrightarrow> c = CHR '' '' \<or> c = CHR 0x09"

fun split_words :: "string \<Rightarrow> string \<Rightarrow> string list" where
  "split_words [] currWord = [currWord]"
| "split_words (c # promptInput) currWord =
     (if c \<noteq> CHR '' '' \<and> c \<noteq> CHR 0x09 then split_words promptInput (currWord @ [c])
      else currWord # split_words promptInput [])"

definition short :: "string list \<Rightarrow> bool" where
  "short ws \<longleftrightarrow> (\<forall>w \<in> set ws. length w < ARBITRARY_MAX_WORD_LENGTH)"

fun adjacent_blanks :: "string \<Rightarrow> bool" where
  "adjacent_blanks (c # d # cs) = ((blank c \<and> blank d) \<or> adjacent_blanks (d # cs))"
| "adjacent_blanks cs = False"

text \<open>
  \<open>parse_words\<close> is the loop of \<^verbatim>\<open>parseArgs\<close> without the array: it returns the words
  that are filtered down and the globals. Lemma \<open>parseArgs_loop_parse_words\<close> proves that the
  loop over the array computes exactly this.
\<close>

function parse_words :: "nat \<Rightarrow> globals \<Rightarrow> string list \<Rightarrow> string list \<times> globals" where
  "parse_words getpid g [] = ([], g)"
| "parse_words getpid g (word # ws) =
     (if word = ''<'' then
        (case ws of
           name # ws' \<Rightarrow>
             if isWord (Some name)
             then parse_words getpid
                    (g\<lparr>inputRedirectionFlag := True, inputRedirectionFileName := name\<rparr>) ws'
             else (case parse_words getpid g ws of (kept, g') \<Rightarrow> (word # kept, g'))
         | [] \<Rightarrow> (case parse_words getpid g ws of (kept, g') \<Rightarrow> (word # kept, g')))
      else if word = ''>'' then
        (case ws of
           name # ws' \<Rightarrow>
             if isWord (Some name)
             then parse_words getpid
                    (g\<lparr>outputRedirectionFlag := True, outputRedirectionFileName := name\<rparr>) ws'
             else (case parse_words getpid g ws of (kept, g') \<Rightarrow> (word # kept, g'))
         | [] \<Rightarrow> (case parse_words getpid g ws of (kept, g') \<Rightarrow> (word # kept, g')))
      else if word = ''$$'' then parse_words getpid g (string_of_nat getpid # ws)
      else if word = ''&'' then
        (if ws = [] then parse_words getpid (g\<lparr>backgroundFlag := background_allowed g\<rparr>) ws
         else (case parse_words getpid g ws of (kept, g') \<Rightarrow> (word # kept, g')))
      else (case parse_words getpid g ws of
              (kept, g') \<Rightarrow> (replaceDoubleDollars getpid word # kept, g')))"
  by pat_completeness auto
termination
  by (relation "measure (\<lambda>(getpid, g, ws).
        2 * length ws + (if ws \<noteq> [] \<and> hd ws = ''$$'' then 1 else 0))")
     (auto simp: string_of_nat_not_marker)

declare parse_words.simps(2) [simp del]

text \<open>
  \<open>window args e ws\<close>: from index \<open>e\<close> on, the array contains the words \<open>ws\<close> and then
  \<^verbatim>\<open>NULL\<close>. \<open>filtered args a bound kept args'\<close>: \<open>args'\<close> is \<open>args\<close> below \<open>a\<close> and
  above \<open>bound\<close>, and contains the words \<open>kept\<close> from \<open>a\<close> on.
\<close>

definition window :: "args \<Rightarrow> nat \<Rightarrow> string list \<Rightarrow> bool" where
  "window args e ws \<longleftrightarrow>
     e + length ws < length args \<and>
     (\<forall>k<length ws. args ! (e + k) = Some (ws ! k)) \<and>
     args ! (e + length ws) = None"

definition filtered :: "args \<Rightarrow> nat \<Rightarrow> nat \<Rightarrow> string list \<Rightarrow> args \<Rightarrow> bool" where
  "filtered args a bound kept args' \<longleftrightarrow>
     length args' = length args \<and>
     (\<forall>k<a. args' ! k = args ! k) \<and>
     (\<forall>k<length kept. args' ! (a + k) = Some (kept ! k)) \<and>
     (\<forall>k>bound. args' ! k = args ! k) \<and>
     a + length kept \<le> bound"

text \<open>\<open>subst_first p w\<close>: the word \<open>w\<close> with its leftmost \<^verbatim>\<open>$$\<close> replaced by \<open>p\<close>.\<close>

fun subst_first :: "string \<Rightarrow> string \<Rightarrow> string" where
  "subst_first p (c # d # cs) =
     (if c = CHR ''$'' \<and> d = CHR ''$'' then p @ cs else c # subst_first p (d # cs))"
| "subst_first p cs = cs"

section \<open>Properties of the process array\<close>

subsection \<open>The loops\<close>

lemma zero_fill_Suc:
  "zero_fill m (Suc n) a = (if m \<le> n then (zero_fill m n a)[n := 0] else a)"
  by (simp add: zero_fill_def)

lemma zero_fill_length [simp]: "length (zero_fill m n a) = length a"
  by (induction n) (simp_all add: zero_fill_Suc, simp add: zero_fill_def)

lemma zero_fill_nth:
  "k < length a \<Longrightarrow> zero_fill m n a ! k = (if m \<le> k \<and> k < n then 0 else a ! k)"
proof (induction n)
  case 0
  then show ?case by (simp add: zero_fill_def)
next
  case (Suc n)
  then show ?case
    by (cases "k = n") (auto simp: zero_fill_Suc)
qed

lemma malloc_length [simp]: "length (malloc block n) = n"
  by (simp add: malloc_def)

lemma zero_fill_malloc: "zero_fill 0 n (malloc block n) = replicate n 0"
  by (rule nth_equalityI) (simp_all add: zero_fill_nth)

lemma zero_fill_tail:
  "length a = n \<Longrightarrow> m \<le> n \<Longrightarrow> zero_fill m n a = take m a @ replicate (n - m) 0"
  by (rule nth_equalityI) (simp_all add: zero_fill_nth nth_append)

lemma copy_over_Suc: "copy_over src (Suc n) dst = (copy_over src n dst)[n := src ! n]"
  by (simp add: copy_over_def)

lemma copy_over_length [simp]: "length (copy_over src n dst) = length dst"
  by (induction n) (simp_all add: copy_over_Suc, simp add: copy_over_def)

lemma copy_over_nth:
  "k < length dst \<Longrightarrow> copy_over src n dst ! k = (if k < n then src ! k else dst ! k)"
proof (induction n)
  case 0
  then show ?case by (simp add: copy_over_def)
next
  case (Suc n)
  then show ?case
    by (cases "k = n") (auto simp: copy_over_Suc)
qed

lemma copy_over_prefix:
  "length src = n \<Longrightarrow> n \<le> length dst \<Longrightarrow> copy_over src n dst = src @ drop n dst"
  by (rule nth_equalityI) (simp_all add: copy_over_nth nth_append)

lemma shift_down_Suc:
  "shift_down a i (Suc n) =
     (if i + 1 \<le> n then (shift_down a i n)[n - 1 := shift_down a i n ! n] else a)"
  by (simp add: shift_down_def)

lemma shift_down_length [simp]: "length (shift_down a i n) = length a"
  by (induction n) (simp_all add: shift_down_Suc, simp add: shift_down_def)

lemma shift_down_nth:
  "n \<le> length a \<Longrightarrow> k < length a \<Longrightarrow>
   shift_down a i n ! k = (if i \<le> k \<and> k + 1 < n then a ! (k + 1) else a ! k)"
proof (induction n arbitrary: k)
  case 0
  then show ?case by (simp add: shift_down_def)
next
  case (Suc n)
  then show ?case
    by (cases "k = n - 1") (auto simp: shift_down_Suc)
qed

lemma shift_down_list:
  assumes "length a = cap" "i < cap"
  shows "(shift_down a i cap)[cap - 1 := 0] = take i a @ drop (i + 1) a @ [0]"
proof (rule nth_equalityI)
  show "length ((shift_down a i cap)[cap - 1 := 0]) = length (take i a @ drop (i + 1) a @ [0])"
    using assms by simp
next
  fix k
  assume "k < length ((shift_down a i cap)[cap - 1 := 0])"
  then have k: "k < cap"
    using assms by simp
  show "(shift_down a i cap)[cap - 1 := 0] ! k = (take i a @ drop (i + 1) a @ [0]) ! k"
    using assms k
    by (cases "k = cap - 1") (auto simp: shift_down_nth nth_append)
qed

subsection \<open>Insertion and removal keep the pids in a gap-free prefix\<close>

lemma createProcessArray_stores: "stores (createProcessArray block) []"
  by (simp add: stores_def createProcessArray_def zero_fill_malloc)

lemma doubleCapacity_eq:
  assumes "length (array proc) = nat (capacity proc)" "0 < capacity proc"
  shows "doubleCapacity block proc =
           proc\<lparr>array := array proc @ replicate (nat (capacity proc)) 0,
                capacity := capacity proc * 2\<rparr>"
proof -
  have "nat (capacity proc * 2) - nat (capacity proc) = nat (capacity proc)"
    using assms by simp
  then show ?thesis
    using assms
    by (simp add: doubleCapacity_def zero_fill_malloc copy_over_prefix)
qed

lemma add_loop_first_zero:
  assumes arr: "array proc = xs @ 0 # rest" and nz: "0 \<notin> set xs"
    and len: "length (array proc) = nat (capacity proc)" and le: "index \<le> length xs"
  shows "add_loop proc val index =
           proc\<lparr>array := xs @ val # rest, size' := size' proc + 1\<rparr>"
  using le
proof (induction "length xs - index" arbitrary: index)
  case 0
  then have idx: "index = length xs" by simp
  have cap: "nat (capacity proc) = length xs + Suc (length rest)"
    using len unfolding arr by simp
  have "int index < capacity proc"
    using cap idx by linarith
  then show ?case
    unfolding idx by (subst add_loop.simps) (simp add: arr)
next
  case (Suc d)
  then have lt: "index < length xs" by simp
  have cap: "nat (capacity proc) = length xs + Suc (length rest)"
    using len unfolding arr by simp
  have "xs ! index \<in> set xs"
    using lt by simp
  then have "xs ! index \<noteq> 0"
    using nz by metis
  then have nz': "array proc ! index \<noteq> 0"
    using lt by (simp add: arr nth_append)
  have bound: "int index < capacity proc"
    using cap lt by linarith
  have d: "d = length xs - (index + 1)"
    using Suc.hyps(2) by simp
  have "add_loop proc val (index + 1) =
      proc\<lparr>array := xs @ val # rest, size' := size' proc + 1\<rparr>"
    using Suc.hyps(1)[OF d] lt by simp
  then show ?case
    using nz' bound by (subst add_loop.simps) simp
qed

lemma remove_loop_first_match:
  assumes arr: "array proc = xs @ val # rest" and nz: "val \<notin> set xs"
    and len: "length (array proc) = nat (capacity proc)" and le: "i \<le> length xs"
  shows "remove_loop proc val i =
           proc\<lparr>array := xs @ rest @ [0], size' := size' proc - 1\<rparr>"
  using le
proof (induction "length xs - i" arbitrary: i)
  case 0
  then have idx: "i = length xs" by simp
  have cap: "nat (capacity proc) = length xs + Suc (length rest)"
    using len unfolding arr by simp
  have lt: "length xs < nat (capacity proc)"
    using cap by simp
  have bound: "int (length xs) < capacity proc"
    using cap by linarith
  have mx: "max (length xs + 1) (nat (capacity proc)) = nat (capacity proc)"
    using lt by simp
  have sh: "(shift_down (array proc) (length xs) (nat (capacity proc)))[nat (capacity proc) - 1 := 0]
      = xs @ rest @ [0]"
    using shift_down_list[OF len lt] by (simp add: arr)
  have hit: "array proc ! length xs = val"
    by (simp add: arr)
  show ?case
    unfolding idx
    by (subst remove_loop.simps) (simp only: bound hit mx sh Let_def if_True HOL.simp_thms)
next
  case (Suc d)
  then have lt: "i < length xs" by simp
  have cap: "nat (capacity proc) = length xs + Suc (length rest)"
    using len unfolding arr by simp
  have "xs ! i \<in> set xs"
    using lt by simp
  then have "xs ! i \<noteq> val"
    using nz by metis
  then have nz': "array proc ! i \<noteq> val"
    using lt by (simp add: arr nth_append)
  have bound: "int i < capacity proc"
    using cap lt by linarith
  have d: "d = length xs - (i + 1)"
    using Suc.hyps(2) by simp
  have "remove_loop proc val (i + 1) =
      proc\<lparr>array := xs @ rest @ [0], size' := size' proc - 1\<rparr>"
    using Suc.hyps(1)[OF d] lt by simp
  then show ?case
    using nz' bound by (subst remove_loop.simps) simp
qed

lemma stores_length:
  assumes "stores procs xs"
  shows "length xs \<le> nat (capacity procs)" "length (array procs) = nat (capacity procs)"
proof -
  have *: "size' procs = int (length xs)" "size' procs \<le> capacity procs"
    "array procs = xs @ replicate (nat (capacity procs) - length xs) 0"
    using assms by (simp_all add: stores_def)
  show le: "length xs \<le> nat (capacity procs)"
    using *(1,2) by linarith
  show "length (array procs) = nat (capacity procs)"
    using le by (simp add: *(3))
qed

lemma stores_live: "stores procs xs \<Longrightarrow> live procs = xs"
  by (simp add: live_def stores_def)

lemma stores_tail_zero:
  assumes "stores procs xs" "length xs \<le> k" "k < length (array procs)"
  shows "array procs ! k = 0"
proof -
  have "array procs = xs @ replicate (nat (capacity procs) - length xs) 0"
    using assms(1) by (simp add: stores_def)
  moreover have "k - length xs < nat (capacity procs) - length xs"
    using assms stores_length[OF assms(1)] by simp
  ultimately show ?thesis
    using assms(2) by (simp add: nth_append)
qed

lemma processesAdd_stores:
  assumes h: "stores procs xs" and v: "pid \<noteq> 0" "pid \<notin> set xs"
  shows "stores (processesAdd block procs pid) (xs @ [pid]) \<and>
         capacity (processesAdd block procs pid) =
           (if capacity procs = size' procs then capacity procs * 2 else capacity procs)"
proof (cases "capacity procs = size' procs")
  case True
  have len: "length (array procs) = nat (capacity procs)"
    using stores_length[OF h] by simp
  have full2: "nat (capacity procs) = length xs"
    using h True by (simp add: stores_def)
  have full: "array procs = xs" "nat (capacity procs) = length xs"
    using h full2 by (simp_all add: stores_def)
  define d where "d = doubleCapacity block procs"
  have d: "d = procs\<lparr>array := xs @ replicate (length xs) 0, capacity := capacity procs * 2\<rparr>"
    using doubleCapacity_eq[OF len] h full by (simp add: d_def stores_def)
  define p1 where "p1 = d\<lparr>array := zero_fill (nat (size' d)) (nat (capacity d)) (array d)\<rparr>"
  have szd: "nat (size' d) = length xs" "nat (capacity d) = length xs + length xs"
    using h full by (simp_all add: d stores_def)
  have "zero_fill (nat (size' d)) (nat (capacity d)) (array d) = xs @ replicate (length xs) 0"
    unfolding szd by (subst zero_fill_tail) (simp_all add: d)
  then have p1: "p1 = procs\<lparr>array := xs @ replicate (length xs) 0, capacity := capacity procs * 2\<rparr>"
    by (simp add: p1_def d)
  have "0 < capacity procs"
    using h by (simp add: stores_def)
  then have pos: "0 < length xs"
    using full2 by linarith
  then obtain n where n: "length xs = Suc n"
    by (cases "length xs") auto
  have arr1: "array p1 = xs @ 0 # replicate n 0"
    by (simp add: p1 n)
  have len1: "length (array p1) = nat (capacity p1)"
    using full by (simp add: p1)
  have "add_loop p1 pid 0 = p1\<lparr>array := xs @ pid # replicate n 0, size' := size' p1 + 1\<rparr>"
    using add_loop_first_zero[OF arr1 _ len1] h by (simp add: stores_def)
  moreover have "processesAdd block procs pid = add_loop p1 pid 0"
    using True by (simp add: processesAdd_def p1_def d_def Let_def)
  ultimately have res: "processesAdd block procs pid =
      p1\<lparr>array := xs @ pid # replicate n 0, size' := size' p1 + 1\<rparr>"
    by simp
  show ?thesis
    using h v True full n unfolding res by (simp add: stores_def p1)
next
  case False
  have len: "length (array procs) = nat (capacity procs)"
    using stores_length[OF h] by simp
  have "size' procs = int (length xs)" "size' procs \<le> capacity procs"
    using h by (simp_all add: stores_def)
  then have lt: "length xs < nat (capacity procs)"
    using False by linarith
  then obtain n where n: "nat (capacity procs) - length xs = Suc n"
    by (cases "nat (capacity procs) - length xs") auto
  have arr: "array procs = xs @ 0 # replicate n 0"
    using h n by (simp add: stores_def)
  have "add_loop procs pid 0 = procs\<lparr>array := xs @ pid # replicate n 0, size' := size' procs + 1\<rparr>"
    using add_loop_first_zero[OF arr _ len] h by (simp add: stores_def)
  moreover have "processesAdd block procs pid = add_loop procs pid 0"
    using False by (simp add: processesAdd_def)
  ultimately have res: "processesAdd block procs pid =
      procs\<lparr>array := xs @ pid # replicate n 0, size' := size' procs + 1\<rparr>"
    by simp
  have "nat (capacity procs) - Suc (length xs) = n"
    using n by simp
  then show ?thesis
    using h v False lt unfolding res by (simp add: stores_def)
qed

text \<open>
  The second zeroing loop, the one in \<^verbatim>\<open>processesAdd\<close>, finds the slots from \<^verbatim>\<open>size\<close>
  on already zeroed by \<^verbatim>\<open>doubleCapacity\<close>: on a full array it changes nothing, as the
  comment at that loop in the source suspects.
\<close>

lemma processesAdd_rezeroing:
  assumes h: "stores procs xs" and full: "capacity procs = size' procs"
  shows "zero_fill (nat (size' (doubleCapacity block procs)))
           (nat (capacity (doubleCapacity block procs))) (array (doubleCapacity block procs)) =
         array (doubleCapacity block procs)"
proof -
  have len: "length (array procs) = nat (capacity procs)"
    using stores_length[OF h] by simp
  have pos: "0 < capacity procs"
    using h by (simp add: stores_def)
  have sz: "nat (size' procs) = length xs" "nat (capacity procs) = length xs"
    using h full by (simp_all add: stores_def)
  have arr: "array procs = xs"
    using h sz by (simp add: stores_def)
  have d: "doubleCapacity block procs =
      procs\<lparr>array := xs @ replicate (length xs) 0, capacity := capacity procs * 2\<rparr>"
    using doubleCapacity_eq[OF len pos, of block] sz arr by simp
  have c2: "nat (capacity procs * 2) = length xs + length xs"
    using sz pos by linarith
  show ?thesis
    unfolding d by (subst zero_fill_tail) (simp_all add: sz c2)
qed

lemma processesRemove_stores:
  assumes h: "stores procs xs" and v: "pid \<in> set xs"
  shows "stores (processesRemove procs pid) (remove1 pid xs) \<and>
         capacity (processesRemove procs pid) = capacity procs"
proof -
  obtain ys zs where split: "xs = ys @ pid # zs" "pid \<notin> set ys"
    using split_list_first[OF v] by blast
  have len: "length (array procs) = nat (capacity procs)"
    using stores_length[OF h] by simp
  define n where "n = nat (capacity procs) - length xs"
  have arr: "array procs = ys @ pid # (zs @ replicate n 0)"
    using h by (simp add: stores_def split n_def)
  have res: "processesRemove procs pid =
      procs\<lparr>array := ys @ (zs @ replicate n 0) @ [0], size' := size' procs - 1\<rparr>"
    unfolding processesRemove_def
    by (rule remove_loop_first_match[OF arr split(2) len]) simp
  have r1: "remove1 pid xs = ys @ zs"
    using split by (simp add: remove1_append)
  have rep: "replicate n (0::int) @ [0] = replicate (Suc n) 0"
    by (simp add: replicate_append_same)
  have cnt: "nat (capacity procs) - (length ys + length zs) = Suc n"
    using stores_length(1)[OF h] unfolding n_def split(1) by simp
  show ?thesis
    using h unfolding res r1
    by (simp add: stores_def split rep cnt del: replicate_Suc)
qed

lemma run_ops_stores:
  "stores procs xs \<Longrightarrow> valid_ops xs ops \<Longrightarrow> stores (run_ops procs ops) (pids_after xs ops)"
proof (induction xs ops arbitrary: procs rule: valid_ops.induct)
  case (1 xs)
  then show ?case by simp
next
  case (2 xs block pid ops)
  then show ?case using processesAdd_stores[of procs xs pid block] by simp
next
  case (3 xs pid ops)
  then show ?case using processesRemove_stores[of procs xs pid] by simp
qed

lemma cleanup_loop_visits_all:
  assumes "stores procs (ys @ zs)"
  shows "\<exists>procs'. cleanup_loop waitpid procs (length ys) out =
            Inr (procs', out @ reports waitpid zs) \<and>
          stores procs' (ys @ filter (\<lambda>pid. waitpid pid = None) zs) \<and>
          capacity procs' = capacity procs"
  using assms
proof (induction zs arbitrary: procs ys out)
  case Nil
  then have "size' procs = int (length ys)" by (simp add: stores_def)
  then show ?case
    using Nil by (subst cleanup_loop.simps) simp
next
  case (Cons z zs)
  have sz: "size' procs = int (length ys) + 1 + int (length zs)"
    using Cons.prems by (simp add: stores_def)
  have le: "length (ys @ z # zs) \<le> nat (capacity procs)"
    and len: "length (array procs) = nat (capacity procs)"
    using stores_length[OF Cons.prems] by simp_all
  have inb: "length ys < length (array procs)" "int (length ys) < capacity procs"
    "int (length ys) < size' procs"
    using le len sz by simp_all
  have at: "array procs ! length ys = z"
    using Cons.prems by (simp add: stores_def nth_append)
  show ?case
  proof (cases "waitpid z")
    case None
    have h: "stores procs ((ys @ [z]) @ zs)"
      using Cons.prems by simp
    from Cons.IH[OF h, of out] obtain procs' where
      "cleanup_loop waitpid procs (length ys + 1) out = Inr (procs', out @ reports waitpid zs)"
      "stores procs' (ys @ z # filter (\<lambda>pid. waitpid pid = None) zs)"
      "capacity procs' = capacity procs"
      by auto
    then show ?thesis
      using None inb at by (subst cleanup_loop.simps) simp
  next
    case (Some results)
    have zin: "z \<in> set (ys @ z # zs)" by simp
    have "z \<notin> set ys"
      using Cons.prems by (auto simp: stores_def)
    then have r1: "remove1 z (ys @ z # zs) = ys @ zs"
      by (simp add: remove1_append)
    have h: "stores (processesRemove procs z) (ys @ zs)"
      and c: "capacity (processesRemove procs z) = capacity procs"
      using processesRemove_stores[OF Cons.prems zin] r1 by simp_all
    from Cons.IH[OF h, of "out @ done_message z results"] obtain procs' where
      "cleanup_loop waitpid (processesRemove procs z) (length ys) (out @ done_message z results)
         = Inr (procs', (out @ done_message z results) @ reports waitpid zs)"
      "stores procs' (ys @ filter (\<lambda>pid. waitpid pid = None) zs)"
      "capacity procs' = capacity (processesRemove procs z)"
      by auto
    then show ?thesis
      using Some inb at c by (subst cleanup_loop.simps) simp
  qed
qed

section \<open>Properties of the handler\<close>


section \<open>Properties of the tokenizer\<close>

lemma split_words_nonempty: "split_words cs w \<noteq> []"
  by (induction cs arbitrary: w) auto

lemma split_words_hd_length: "length w \<le> length (hd (split_words cs w))"
proof (induction cs arbitrary: w)
  case Nil
  then show ?case by simp
next
  case (Cons c cs)
  show ?case
  proof (cases "c \<noteq> CHR '' '' \<and> c \<noteq> CHR 0x09")
    case True
    then show ?thesis using Cons[of "w @ [c]"] by simp
  next
    case False
    then show ?thesis by auto
  qed
qed

lemma short_split_words_current:
  "short (split_words cs w) \<Longrightarrow> length w < ARBITRARY_MAX_WORD_LENGTH"
proof -
  assume s: "short (split_words cs w)"
  have "hd (split_words cs w) \<in> set (split_words cs w)"
    using split_words_nonempty by simp
  then have "length (hd (split_words cs w)) < ARBITRARY_MAX_WORD_LENGTH"
    using s by (simp add: short_def)
  then show ?thesis
    using split_words_hd_length[of w cs] by simp
qed

lemma getArgs_loop_split_words:
  "getArgs_loop cs args i w =
     (if short (split_words cs w) \<and> i + length (split_words cs w) \<le> length args
      then Inr (take i args @ map Some (split_words cs w) @
                drop (i + length (split_words cs w)) args)
      else Inl OutOfBounds)"
proof (induction cs arbitrary: args i w)
  case Nil
  show ?case
  proof (cases "i < length args")
    case True
    then show ?thesis
      by (auto simp: short_def upd_conv_take_nth_drop not_le)
  next
    case False
    then show ?thesis by (auto simp: short_def)
  qed
next
  case (Cons c cs)
  show ?case
  proof (cases "ARBITRARY_MAX_WORD_LENGTH \<le> length w")
    case True
    then have "\<not> short (split_words (c # cs) w)"
      using short_split_words_current[of "c # cs" w] by auto
    then show ?thesis using True by simp
  next
    case long: False
    show ?thesis
    proof (cases "c \<noteq> CHR '' '' \<and> c \<noteq> CHR 0x09")
      case True
      then show ?thesis using long Cons[of args i "w @ [c]"] by simp
    next
      case False
      show ?thesis
      proof (cases "i < length args")
        case True
        have "take (Suc i) (args[i := Some w]) = take i args @ [Some w]"
          using True by (simp add: take_Suc_conv_app_nth)
        then show ?thesis
          using False long True Cons[of "args[i := Some w]" "i + 1" "[]"]
          by (auto simp: short_def)
      next
        case nb: False
        then show ?thesis using False long by auto
      qed
    qed
  qed
qed

lemma clear_loop:
  "n \<le> length a \<Longrightarrow>
   fold (\<lambda>i b. b[i := None]) [0..<n] a = replicate n None @ drop n a"
proof (induction n)
  case 0
  then show ?case by simp
next
  case (Suc n)
  then have "n < length a" by simp
  then have "(replicate n None @ drop n a)[n := None] = replicate n None @ None # drop (Suc n) a"
    by (simp add: list_update_append Cons_nth_drop_Suc[symmetric])
  then show ?case
    using Suc by (simp add: replicate_app_Cons_same)
qed

lemma clearArgs_eq:
  "length args = MAX_NUMBER_ARGS \<Longrightarrow> clearArgs args = replicate MAX_NUMBER_ARGS None"
  by (simp add: clearArgs_def clear_loop)

lemma initializeArgs_eq: "initializeArgs = replicate MAX_NUMBER_ARGS None"
  by (simp add: initializeArgs_def clear_loop)

lemma initializeArgs_length: "length initializeArgs = MAX_NUMBER_ARGS"
  by (simp add: initializeArgs_eq)

lemma getArgs_split_words:
  assumes "length args = MAX_NUMBER_ARGS"
  shows "getArgs promptInput args =
     (if short (split_words promptInput []) \<and>
         length (split_words promptInput []) \<le> MAX_NUMBER_ARGS
      then Inr (map Some (split_words promptInput []) @
                replicate (MAX_NUMBER_ARGS - length (split_words promptInput [])) None)
      else Inl OutOfBounds)"
  by (simp add: getArgs_def clearArgs_eq[OF assms] getArgs_loop_split_words)

lemma adjacent_blanks_nth:
  "adjacent_blanks cs \<longleftrightarrow> (\<exists>i. Suc i < length cs \<and> blank (cs ! i) \<and> blank (cs ! Suc i))"
proof (induction cs rule: adjacent_blanks.induct)
  case (1 c d cs)
  have "(\<exists>i. Suc i < length (c # d # cs) \<and> blank ((c # d # cs) ! i) \<and> blank ((c # d # cs) ! Suc i))
      \<longleftrightarrow> (blank c \<and> blank d) \<or>
          (\<exists>j. Suc j < length (d # cs) \<and> blank ((d # cs) ! j) \<and> blank ((d # cs) ! Suc j))"
  proof
    assume "\<exists>i. Suc i < length (c # d # cs) \<and> blank ((c # d # cs) ! i) \<and> blank ((c # d # cs) ! Suc i)"
    then obtain i where i: "Suc i < length (c # d # cs)" "blank ((c # d # cs) ! i)"
      "blank ((c # d # cs) ! Suc i)" by blast
    show "(blank c \<and> blank d) \<or>
          (\<exists>j. Suc j < length (d # cs) \<and> blank ((d # cs) ! j) \<and> blank ((d # cs) ! Suc j))"
    proof (cases i)
      case 0
      then show ?thesis using i by simp
    next
      case (Suc j)
      then have "Suc j < length (d # cs) \<and> blank ((d # cs) ! j) \<and> blank ((d # cs) ! Suc j)"
        using i by simp
      then show ?thesis by blast
    qed
  next
    assume "(blank c \<and> blank d) \<or>
          (\<exists>j. Suc j < length (d # cs) \<and> blank ((d # cs) ! j) \<and> blank ((d # cs) ! Suc j))"
    then show "\<exists>i. Suc i < length (c # d # cs) \<and> blank ((c # d # cs) ! i) \<and> blank ((c # d # cs) ! Suc i)"
    proof
      assume "blank c \<and> blank d"
      then show ?thesis by (intro exI[of _ 0]) simp
    next
      assume "\<exists>j. Suc j < length (d # cs) \<and> blank ((d # cs) ! j) \<and> blank ((d # cs) ! Suc j)"
      then obtain j where "Suc j < length (d # cs)" "blank ((d # cs) ! j)" "blank ((d # cs) ! Suc j)"
        by blast
      then show ?thesis by (intro exI[of _ "Suc j"]) simp
    qed
  qed
  then show ?case using 1 by simp
qed simp_all

lemma split_words_empty_word:
  "[] \<in> set (split_words cs w) \<longleftrightarrow>
     (w = [] \<and> (cs = [] \<or> blank (hd cs))) \<or> (cs \<noteq> [] \<and> blank (last cs)) \<or> adjacent_blanks cs"
proof (induction cs arbitrary: w)
  case Nil
  then show ?case by auto
next
  case (Cons c cs)
  show ?case
  proof (cases "blank c")
    case True
    then have s: "split_words (c # cs) w = w # split_words cs []"
      by (auto simp: blank_def)
    show ?thesis
      unfolding s using True Cons[of "[]"] by (cases cs) auto
  next
    case False
    then have s: "split_words (c # cs) w = split_words cs (w @ [c])"
      by (simp add: blank_def)
    show ?thesis
      unfolding s using False Cons[of "w @ [c]"] by (cases cs) auto
  qed
qed

section \<open>Properties of the replacement of \<^verbatim>\<open>$$\<close>\<close>

lemma replaceDoubleDollars_loop_subst_first:
  "index \<le> length arg \<Longrightarrow>
   replaceDoubleDollars_loop p arg index = take index arg @ subst_first p (drop index arg)"
proof (induction "length arg - index" arbitrary: index)
  case 0
  then have "index = length arg" by simp
  then show ?case
    by (subst replaceDoubleDollars_loop.simps) simp
next
  case (Suc n)
  then have lt: "index < length arg" by simp
  show ?case
  proof (cases "index + 1 < length arg")
    case False
    then have "drop index arg = [arg ! index]"
      using lt by (metis Cons_nth_drop_Suc Suc_eq_plus1 drop_all not_less)
    moreover have "arg = take index arg @ drop index arg"
      by simp
    ultimately have "arg = take index arg @ [arg ! index]"
      by metis
    then show ?thesis
      using False \<open>drop index arg = [arg ! index]\<close>
      by (subst replaceDoubleDollars_loop.simps) simp
  next
    case True
    have d: "drop index arg = arg ! index # arg ! (index + 1) # drop (index + 2) arg"
      using True lt by (metis Cons_nth_drop_Suc Suc_eq_plus1 add_2_eq_Suc')
    show ?thesis
    proof (cases "arg ! index = CHR ''$'' \<and> arg ! (index + 1) = CHR ''$''")
      case hit: True
      then show ?thesis
        using True lt d by (subst replaceDoubleDollars_loop.simps) simp
    next
      case miss: False
      have n: "n = length arg - (index + 1)"
        using Suc.hyps(2) by simp
      have ih: "replaceDoubleDollars_loop p arg (index + 1) =
          take (index + 1) arg @ subst_first p (drop (index + 1) arg)"
        by (rule Suc.hyps(1)[OF n]) (use lt in simp)
      have d1: "drop (index + 1) arg = arg ! (index + 1) # drop (index + 2) arg"
        using True by (metis Cons_nth_drop_Suc Suc_eq_plus1 add_2_eq_Suc')
      have t1: "take (index + 1) arg = take index arg @ [arg ! index]"
        using lt by (simp add: take_Suc_conv_app_nth)
      have "replaceDoubleDollars_loop p arg index = replaceDoubleDollars_loop p arg (index + 1)"
        using True lt miss by (subst replaceDoubleDollars_loop.simps) auto
      then show ?thesis
        using miss unfolding ih d t1 d1 by auto
    qed
  qed
qed

lemma replaceDoubleDollars_subst_first:
  "replaceDoubleDollars getpid arg = subst_first (string_of_nat getpid) arg"
  by (simp add: replaceDoubleDollars_def replaceDoubleDollars_loop_subst_first)

lemma subst_first_no_marker: "\<not> sublist ''$$'' w \<Longrightarrow> subst_first p w = w"
proof (induction p w rule: subst_first.induct)
  case (1 p c d cs)
  have "\<not> prefix ''$$'' (c # d # cs)" "\<not> sublist ''$$'' (d # cs)"
    using "1.prems" by (simp_all add: sublist_Cons_right)
  then show ?case using 1 by auto
qed simp_all

lemma subst_first_leftmost:
  "\<not> sublist ''$$'' (pre @ ''$'') \<Longrightarrow> subst_first p (pre @ ''$$'' @ post) = pre @ p @ post"
proof (induction pre)
  case Nil
  then show ?case by simp
next
  case (Cons c pre)
  have np: "\<not> prefix ''$$'' (c # pre @ ''$'')" and ns: "\<not> sublist ''$$'' (pre @ ''$'')"
    using Cons.prems by (simp_all add: sublist_Cons_right)
  obtain d rest where r: "pre @ ''$$'' @ post = d # rest" "pre @ ''$'' = d # take (length pre) rest"
    by (cases pre) auto
  have "\<not> (c = CHR ''$'' \<and> d = CHR ''$'')"
    using np r(2) by auto
  then have "subst_first p (c # pre @ ''$$'' @ post) = c # subst_first p (pre @ ''$$'' @ post)"
    unfolding r(1) by auto
  then show ?case
    using Cons.IH[OF ns] by simp
qed

lemma subst_first_empty: "p \<noteq> [] \<Longrightarrow> subst_first p w = [] \<longleftrightarrow> w = []"
  by (induction p w rule: subst_first.induct) auto

lemma digit_char_cases:
  "n < 10 \<Longrightarrow> digit_char n \<in> set ''0123456789''"
proof -
  assume "n < 10"
  then have "n \<in> {0, 1, 2, 3, 4, 5, 6, 7, 8, 9}" by auto
  then show ?thesis by (auto simp: numeral_nat)
qed

lemma string_of_nat_decimal: "set (string_of_nat n) \<subseteq> set ''0123456789''"
  using string_of_nat_digits[of n] digit_char_cases by (auto simp del: digit_char.simps)

lemma string_of_nat_nonempty: "string_of_nat n \<noteq> []"
  by (subst string_of_nat.simps) simp

lemma string_of_nat_not_special:
  "string_of_nat n \<noteq> ''<''" "string_of_nat n \<noteq> ''>''" "string_of_nat n \<noteq> ''&''"
  using string_of_nat_decimal[of n] by auto

lemma string_of_nat_no_marker: "\<not> sublist ''$$'' (string_of_nat n)"
proof
  assume "sublist ''$$'' (string_of_nat n)"
  then have "CHR ''$'' \<in> set (string_of_nat n)"
    by (auto simp: sublist_def)
  then show False
    using string_of_nat_no_dollar by blast
qed

lemma subst_first_ampersand:
  assumes "subst_first p w = ''&''" "p \<noteq> []" "CHR ''&'' \<notin> set p"
  shows "w = ''&''"
  using assms
proof (induction p w rule: subst_first.induct)
  case (1 p c d cs)
  show ?case
  proof (cases "c = CHR ''$'' \<and> d = CHR ''$''")
    case True
    then have "p @ cs = ''&''" using "1.prems"(1) by simp
    then have "p = ''&''" using "1.prems"(2) by (cases p) auto
    then show ?thesis using "1.prems"(3) by simp
  next
    case False
    then have "subst_first p (d # cs) = []" using "1.prems"(1) by auto
    then show ?thesis using subst_first_empty[OF "1.prems"(2), of "d # cs"] by simp
  qed
qed simp_all

lemma replaceDoubleDollars_ampersand:
  "replaceDoubleDollars getpid word = ''&'' \<Longrightarrow> word = ''&''"
proof -
  assume a: "replaceDoubleDollars getpid word = ''&''"
  have "CHR ''&'' \<notin> set (string_of_nat getpid)"
    using string_of_nat_decimal[of getpid] by auto
  then show ?thesis
    using a subst_first_ampersand[OF _ string_of_nat_nonempty]
    by (simp add: replaceDoubleDollars_subst_first)
qed

lemma replaceDoubleDollars_empty: "replaceDoubleDollars getpid word = [] \<longleftrightarrow> word = []"
  by (simp add: replaceDoubleDollars_subst_first subst_first_empty string_of_nat_nonempty)

section \<open>The branches of the parser loop\<close>

lemma case_argsFilterDown:
  "(case argsFilterDown args a e of (args', a', e') \<Rightarrow> f args' a' e') =
     f (fst (argsFilterDown args a e)) (a + 1) (e + 1)"
  by (simp add: argsFilterDown_def)

lemma short_Cons: "short (w # ws) \<longleftrightarrow> length w < ARBITRARY_MAX_WORD_LENGTH \<and> short ws"
  by (simp add: short_def)

lemma loop_end:
  "e < length args \<Longrightarrow> args ! e = None \<Longrightarrow> parseArgs_loop getpid g args a e = Inr (args, a, g)"
  by (subst parseArgs_loop.simps) simp

lemma loop_input:
  assumes "e + 1 < length args" "args ! e = Some ''<''" "args ! (e + 1) = Some name"
    "isWord (Some name)" "length name < ARBITRARY_MAX_WORD_LENGTH"
  shows "parseArgs_loop getpid g args a e =
     parseArgs_loop getpid
       (g\<lparr>inputRedirectionFlag := True, inputRedirectionFileName := name\<rparr>) args a (e + 2)"
  using assms by (subst parseArgs_loop.simps) (simp add: not_le)

lemma loop_output:
  assumes "e + 1 < length args" "args ! e = Some ''>''" "args ! (e + 1) = Some name"
    "isWord (Some name)" "length name < ARBITRARY_MAX_WORD_LENGTH"
  shows "parseArgs_loop getpid g args a e =
     parseArgs_loop getpid
       (g\<lparr>outputRedirectionFlag := True, outputRedirectionFileName := name\<rparr>) args a (e + 2)"
  using assms by (subst parseArgs_loop.simps) (simp add: not_le)

lemma loop_operator_kept:
  assumes "e + 1 < length args" "args ! e = Some word"
    "word = ''<'' \<or> word = ''>''" "\<not> isWord (args ! (e + 1))"
  shows "parseArgs_loop getpid g args a e =
     parseArgs_loop getpid g (fst (argsFilterDown args a e)) (a + 1) (e + 1)"
  using assms by (subst parseArgs_loop.simps) (auto simp: not_le case_argsFilterDown)

lemma loop_marker:
  assumes "e < length args" "args ! e = Some ''$$''"
  shows "parseArgs_loop getpid g args a e =
     parseArgs_loop getpid g (args[e := Some (string_of_nat getpid)]) a e"
  using assms by (subst parseArgs_loop.simps) (simp add: not_le)

lemma loop_background:
  assumes "e + 1 < length args" "args ! e = Some ''&''" "args ! (e + 1) = None"
  shows "parseArgs_loop getpid g args a e =
     parseArgs_loop getpid (g\<lparr>backgroundFlag := background_allowed g\<rparr>) args a (e + 1)"
  using assms
  by (subst parseArgs_loop.simps) (cases "background_allowed g", simp_all add: not_le)

lemma loop_ampersand_kept:
  assumes "e + 1 < length args" "args ! e = Some ''&''" "args ! (e + 1) \<noteq> None"
  shows "parseArgs_loop getpid g args a e =
     parseArgs_loop getpid g (fst (argsFilterDown args a e)) (a + 1) (e + 1)"
  using assms by (subst parseArgs_loop.simps) (auto simp: not_le case_argsFilterDown)

lemma loop_word:
  assumes "e < length args" "args ! e = Some word"
    "word \<noteq> ''<''" "word \<noteq> ''>''" "word \<noteq> ''$$''" "word \<noteq> ''&''"
  shows "parseArgs_loop getpid g args a e =
     parseArgs_loop getpid g
       (fst (argsFilterDown (args[e := Some (replaceDoubleDollars getpid word)]) a e))
       (a + 1) (e + 1)"
  using assms by (subst parseArgs_loop.simps) (simp add: not_le case_argsFilterDown)

lemma words_keep:
  "(case parse_words getpid g ws of (kept, g') \<Rightarrow> (x # kept, g')) =
     (x # fst (parse_words getpid g ws), snd (parse_words getpid g ws))"
  by (simp add: case_prod_beta)

lemma words_input:
  "isWord (Some name) \<Longrightarrow>
   parse_words getpid g (''<'' # name # ws) =
     parse_words getpid (g\<lparr>inputRedirectionFlag := True, inputRedirectionFileName := name\<rparr>) ws"
  by (subst parse_words.simps(2)) simp

lemma words_output:
  "isWord (Some name) \<Longrightarrow>
   parse_words getpid g (''>'' # name # ws) =
     parse_words getpid (g\<lparr>outputRedirectionFlag := True, outputRedirectionFileName := name\<rparr>) ws"
  by (subst parse_words.simps(2)) simp

lemma words_operator_kept:
  assumes "word = ''<'' \<or> word = ''>''" "\<not> isWord (case ws of [] \<Rightarrow> None | n # _ \<Rightarrow> Some n)"
  shows "parse_words getpid g (word # ws) =
     (word # fst (parse_words getpid g ws), snd (parse_words getpid g ws))"
  using assms by (subst parse_words.simps(2)) (cases ws; auto simp: words_keep)

lemma words_marker:
  "parse_words getpid g (''$$'' # ws) = parse_words getpid g (string_of_nat getpid # ws)"
  by (subst parse_words.simps(2)) simp

lemma words_background:
  "parse_words getpid g [''&''] = ([], g\<lparr>backgroundFlag := background_allowed g\<rparr>)"
  by (subst parse_words.simps(2)) simp

lemma words_ampersand_kept:
  "ws \<noteq> [] \<Longrightarrow>
   parse_words getpid g (''&'' # ws) =
     (''&'' # fst (parse_words getpid g ws), snd (parse_words getpid g ws))"
  by (subst parse_words.simps(2)) (simp add: words_keep)

lemma words_word:
  assumes "word \<noteq> ''<''" "word \<noteq> ''>''" "word \<noteq> ''$$''" "word \<noteq> ''&''"
  shows "parse_words getpid g (word # ws) =
     (replaceDoubleDollars getpid word # fst (parse_words getpid g ws),
      snd (parse_words getpid g ws))"
  using assms by (subst parse_words.simps(2)) (simp add: words_keep)

lemma words_marker_kept:
  "parse_words getpid g (''$$'' # ws) =
     (string_of_nat getpid # fst (parse_words getpid g ws), snd (parse_words getpid g ws))"
proof -
  have "replaceDoubleDollars getpid (string_of_nat getpid) = string_of_nat getpid"
    by (simp add: replaceDoubleDollars_subst_first subst_first_no_marker string_of_nat_no_marker)
  then show ?thesis
    using words_word[of "string_of_nat getpid" getpid g ws]
    by (simp add: words_marker string_of_nat_not_special string_of_nat_not_marker)
qed

lemma isWord_None: "\<not> isWord None"
  by (simp add: isWord_def)

lemma isWord_Some:
  "isWord (Some name) \<Longrightarrow> name \<noteq> [] \<and> name \<noteq> ''&'' \<and> name \<noteq> ''<'' \<and> name \<noteq> ''>''"
  by (cases name) (auto simp: isWord_def split: if_splits)

lemma parse_words_induct [case_names Nil redirect_in redirect_out operator_kept marker background
    ampersand_kept word]:
  assumes "\<And>g. P g []"
    and "\<And>g name ws. isWord (Some name) \<Longrightarrow>
          P (g\<lparr>inputRedirectionFlag := True, inputRedirectionFileName := name\<rparr>) ws \<Longrightarrow>
          P g (''<'' # name # ws)"
    and "\<And>g name ws. isWord (Some name) \<Longrightarrow>
          P (g\<lparr>outputRedirectionFlag := True, outputRedirectionFileName := name\<rparr>) ws \<Longrightarrow>
          P g (''>'' # name # ws)"
    and "\<And>g word ws. word = ''<'' \<or> word = ''>'' \<Longrightarrow>
          \<not> isWord (case ws of [] \<Rightarrow> None | n # _ \<Rightarrow> Some n) \<Longrightarrow> P g ws \<Longrightarrow> P g (word # ws)"
    and "\<And>g ws. P g ws \<Longrightarrow> P g (''$$'' # ws)"
    and "\<And>g. P g [''&'']"
    and "\<And>g ws. ws \<noteq> [] \<Longrightarrow> P g ws \<Longrightarrow> P g (''&'' # ws)"
    and "\<And>g word ws. word \<noteq> ''<'' \<Longrightarrow> word \<noteq> ''>'' \<Longrightarrow> word \<noteq> ''$$'' \<Longrightarrow> word \<noteq> ''&'' \<Longrightarrow>
          P g ws \<Longrightarrow> P g (word # ws)"
  shows "P g ws"
proof (induction "length ws" arbitrary: ws g rule: less_induct)
  case less
  show ?case
  proof (cases ws)
    case Nil
    then show ?thesis using assms(1) by simp
  next
    case (Cons word ws1)
    have ih1: "P g' ws1" for g'
      by (rule less.hyps) (simp add: Cons)
    consider (redirect) name ws2 where "word = ''<'' \<or> word = ''>''" "ws1 = name # ws2"
        "isWord (Some name)"
      | (kept) "word = ''<'' \<or> word = ''>''"
        "\<not> isWord (case ws1 of [] \<Rightarrow> None | n # _ \<Rightarrow> Some n)"
      | (dd) "word = ''$$''" | (bg) "word = ''&''" "ws1 = []" | (amp) "word = ''&''" "ws1 \<noteq> []"
      | (other) "word \<noteq> ''<''" "word \<noteq> ''>''" "word \<noteq> ''$$''" "word \<noteq> ''&''"
      by (cases ws1) (auto simp: isWord_None)
    then show ?thesis
    proof cases
      case redirect
      have "P g' ws2" for g'
        by (rule less.hyps) (simp add: Cons redirect)
      then show ?thesis
        using redirect assms(2,3) unfolding Cons by blast
    next
      case kept
      then show ?thesis using assms(4) ih1 unfolding Cons by blast
    next
      case dd
      then show ?thesis using assms(5) ih1 unfolding Cons by blast
    next
      case bg
      then show ?thesis using assms(6) unfolding Cons by blast
    next
      case amp
      then show ?thesis using assms(7) ih1 unfolding Cons by blast
    next
      case other
      then show ?thesis using assms(8) ih1 unfolding Cons by blast
    qed
  qed
qed

section \<open>The loop over the array computes \<open>parse_words\<close>\<close>

lemma window_Cons:
  assumes "window args e (w # ws)"
  shows "e < length args" "args ! e = Some w" "e + 1 < length args" "window args (e + 1) ws"
    "args ! (e + 1) = (case ws of [] \<Rightarrow> None | n # _ \<Rightarrow> Some n)"
proof -
  have b: "e + Suc (length ws) < length args"
    and n: "\<forall>k<Suc (length ws). args ! (e + k) = Some ((w # ws) ! k)"
    and z: "args ! (e + Suc (length ws)) = None"
    using assms by (simp_all add: window_def)
  show "e < length args" "e + 1 < length args"
    using b by simp_all
  show "args ! e = Some w"
    using n[rule_format, of 0] by simp
  have n': "\<forall>k<length ws. args ! (e + 1 + k) = Some (ws ! k)"
  proof (intro allI impI)
    fix k assume "k < length ws"
    then show "args ! (e + 1 + k) = Some (ws ! k)"
      using n[rule_format, of "Suc k"] by simp
  qed
  then show "window args (e + 1) ws"
    using b z by (simp add: window_def)
  show "args ! (e + 1) = (case ws of [] \<Rightarrow> None | n # _ \<Rightarrow> Some n)"
  proof (cases ws)
    case Nil
    then show ?thesis using z by simp
  next
    case (Cons n ws')
    then show ?thesis using n'[rule_format, of 0] by simp
  qed
qed

lemma window_replace:
  assumes "window args e (w # ws)"
  shows "window (args[e := Some w']) e (w' # ws)"
proof -
  have b: "e + Suc (length ws) < length args"
    and n: "\<forall>k<Suc (length ws). args ! (e + k) = Some ((w # ws) ! k)"
    and z: "args ! (e + Suc (length ws)) = None"
    using assms by (simp_all add: window_def)
  have "\<forall>k<Suc (length ws). (args[e := Some w']) ! (e + k) = Some ((w' # ws) ! k)"
  proof (intro allI impI)
    fix k assume k: "k < Suc (length ws)"
    show "(args[e := Some w']) ! (e + k) = Some ((w' # ws) ! k)"
    proof (cases k)
      case 0
      then show ?thesis using b by simp
    next
      case (Suc j)
      then show ?thesis using n[rule_format, of k] k by simp
    qed
  qed
  then show ?thesis
    using b z by (simp add: window_def)
qed

lemma window_filterDown:
  assumes "window args e (w # ws)" "a \<le> e"
  shows "window (fst (argsFilterDown args a e)) (e + 1) ws"
proof -
  have w1: "window args (e + 1) ws"
    by (rule window_Cons(4)[OF assms(1)])
  show ?thesis
  proof (cases "a = e")
    case True
    then show ?thesis using w1 by (simp add: argsFilterDown_def)
  next
    case False
    then have "a < e" using assms(2) by simp
    then show ?thesis
      using w1 by (simp add: argsFilterDown_def window_def)
  qed
qed

lemma filtered_filterDown:
  assumes "window args e (w # ws)" "a \<le> e"
    and "filtered (fst (argsFilterDown args a e)) (a + 1) bound kept args'" "e < bound"
  shows "filtered args a bound (w # kept) args'"
proof -
  define args1 where "args1 = fst (argsFilterDown args a e)"
  have e: "e < length args" "args ! e = Some w"
    using window_Cons[OF assms(1)] by simp_all
  have len1: "length args1 = length args"
    by (simp add: args1_def argsFilterDown_def)
  have at_a: "args1 ! a = Some w"
    using e assms(2) by (cases "a = e") (simp_all add: args1_def argsFilterDown_def)
  have below: "\<forall>k<a. args1 ! k = args ! k"
    using assms(2) by (simp add: args1_def argsFilterDown_def)
  have above: "\<forall>k>e. args1 ! k = args ! k"
    using assms(2) by (simp add: args1_def argsFilterDown_def)
  have f: "length args' = length args1" "\<forall>k<a + 1. args' ! k = args1 ! k"
    "\<forall>k<length kept. args' ! (a + 1 + k) = Some (kept ! k)"
    "\<forall>k>bound. args' ! k = args1 ! k" "a + 1 + length kept \<le> bound"
    using assms(3) by (simp_all add: filtered_def args1_def)
  have "\<forall>k<length (w # kept). args' ! (a + k) = Some ((w # kept) ! k)"
  proof (intro allI impI)
    fix k assume k: "k < length (w # kept)"
    show "args' ! (a + k) = Some ((w # kept) ! k)"
    proof (cases k)
      case 0
      then show ?thesis using f(2) at_a by simp
    next
      case (Suc j)
      then show ?thesis using f(3)[rule_format, of j] k by simp
    qed
  qed
  moreover have "\<forall>k<a. args' ! k = args ! k"
    using f(2) below by simp
  moreover have "\<forall>k>bound. args' ! k = args ! k"
    using f(4) above assms(4) by simp
  ultimately show ?thesis
    using f(1,5) len1 by (simp add: filtered_def)
qed

lemma filtered_replace:
  assumes "filtered (args[e := x]) a bound kept args'" "a \<le> e" "e \<le> bound"
  shows "filtered args a bound kept args'"
  using assms by (simp add: filtered_def)

lemma parseArgs_loop_parse_words:
  "window args e ws \<Longrightarrow> a \<le> e \<Longrightarrow> short (tl ws) \<Longrightarrow>
   \<exists>args'. parseArgs_loop getpid g args a e =
       Inr (args', a + length (fst (parse_words getpid g ws)), snd (parse_words getpid g ws)) \<and>
     filtered args a (e + length ws) (fst (parse_words getpid g ws)) args'"
proof (induction "2 * length ws + (if ws \<noteq> [] \<and> hd ws = ''$$'' then 1 else 0)"
    arbitrary: ws g args a e rule: less_induct)
  case less
  show ?case
  proof (cases ws)
    case Nil
    have "e < length args" "args ! e = None"
      using less.prems(1) by (simp_all add: window_def Nil)
    then have "parseArgs_loop getpid g args a e = Inr (args, a, g)"
      by (rule loop_end)
    moreover have "filtered args a e [] args"
      using less.prems(2) by (simp add: filtered_def)
    ultimately show ?thesis
      by (simp add: Nil)
  next
    case (Cons word ws1)
    have win: "window args e (word # ws1)"
      using less.prems(1) by (simp add: Cons)
    note w = window_Cons[OF win]
    have sh: "short ws1"
      using less.prems(3) by (simp add: Cons)
    have sh_tl: "short (tl ws1)"
      using sh by (cases ws1) (simp_all add: short_Cons)
    have bound: "e + length ws = e + 1 + length ws1"
      by (simp add: Cons)
    have m1: "2 * length ws1 + (if ws1 \<noteq> [] \<and> hd ws1 = ''$$'' then 1 else 0)
          < 2 * length ws + (if ws \<noteq> [] \<and> hd ws = ''$$'' then 1 else 0)"
      by (simp add: Cons)
    have a1: "a + 1 \<le> e + 1" "a \<le> e + 1"
      using less.prems(2) by simp_all
    have keep: "\<exists>args'. parseArgs_loop getpid g (fst (argsFilterDown (args[e := Some w']) a e))
            (a + 1) (e + 1) =
          Inr (args', a + length (w' # fst (parse_words getpid g ws1)),
               snd (parse_words getpid g ws1)) \<and>
          filtered args a (e + length ws) (w' # fst (parse_words getpid g ws1)) args'" for w'
    proof -
      have w0: "window (args[e := Some w']) e (w' # ws1)"
        by (rule window_replace[OF win])
      have w1: "window (fst (argsFilterDown (args[e := Some w']) a e)) (e + 1) ws1"
        by (rule window_filterDown[OF w0 less.prems(2)])
      have "\<exists>args'. parseArgs_loop getpid g (fst (argsFilterDown (args[e := Some w']) a e))
            (a + 1) (e + 1) =
          Inr (args', a + 1 + length (fst (parse_words getpid g ws1)),
               snd (parse_words getpid g ws1)) \<and>
          filtered (fst (argsFilterDown (args[e := Some w']) a e)) (a + 1) (e + 1 + length ws1)
            (fst (parse_words getpid g ws1)) args'"
        by (rule less.hyps[OF m1 w1 a1(1) sh_tl])
      then obtain args' where r:
        "parseArgs_loop getpid g (fst (argsFilterDown (args[e := Some w']) a e)) (a + 1) (e + 1) =
          Inr (args', a + 1 + length (fst (parse_words getpid g ws1)),
               snd (parse_words getpid g ws1))"
        "filtered (fst (argsFilterDown (args[e := Some w']) a e)) (a + 1) (e + 1 + length ws1)
           (fst (parse_words getpid g ws1)) args'"
        by blast
      have "filtered (args[e := Some w']) a (e + 1 + length ws1)
              (w' # fst (parse_words getpid g ws1)) args'"
        by (rule filtered_filterDown[OF w0 less.prems(2) r(2)]) simp
      then have "filtered args a (e + 1 + length ws1) (w' # fst (parse_words getpid g ws1)) args'"
        by (rule filtered_replace) (use less.prems(2) in simp_all)
      then show ?thesis
        using r(1) by (simp add: bound)
    qed
    have same: "args[e := Some word] = args"
      using w(1,2) by (metis list_update_id)
    have keep_same: "\<exists>args'. parseArgs_loop getpid g (fst (argsFilterDown args a e))
            (a + 1) (e + 1) =
          Inr (args', a + length (word # fst (parse_words getpid g ws1)),
               snd (parse_words getpid g ws1)) \<and>
          filtered args a (e + length ws) (word # fst (parse_words getpid g ws1)) args'"
      using keep[of word] unfolding same .
    have redirect: "\<exists>args'. parseArgs_loop getpid g' args a (e + 2) =
          Inr (args', a + length (fst (parse_words getpid g' ws2)),
               snd (parse_words getpid g' ws2)) \<and>
          filtered args a (e + length ws) (fst (parse_words getpid g' ws2)) args'"
      if ws1: "ws1 = name # ws2" for name ws2 g'
    proof -
      have "window args (e + 1 + 1) ws2"
        using window_Cons(4)[OF w(4)[unfolded ws1]] .
      then have w2: "window args (e + 2) ws2"
        by (simp add: numeral_2_eq_2)
      have m: "2 * length ws2 + (if ws2 \<noteq> [] \<and> hd ws2 = ''$$'' then 1 else 0)
          < 2 * length ws + (if ws \<noteq> [] \<and> hd ws = ''$$'' then 1 else 0)"
        by (simp add: Cons ws1)
      have s2: "short (tl ws2)"
        using sh_tl by (cases ws2) (simp_all add: ws1 short_Cons)
      have a2: "a \<le> e + 2"
        using less.prems(2) by simp
      have b2: "e + 2 + length ws2 = e + length ws"
        by (simp add: Cons ws1)
      show ?thesis
        using less.hyps[OF m w2 a2 s2, of g'] unfolding b2 .
    qed
    consider (lt) "word = ''<''" | (gt) "word = ''>''" | (dd) "word = ''$$''"
      | (amp) "word = ''&''"
      | (other) "word \<noteq> ''<''" "word \<noteq> ''>''" "word \<noteq> ''$$''" "word \<noteq> ''&''"
      by blast
    then show ?thesis
    proof cases
      case lt
      show ?thesis
      proof (cases "isWord (args ! (e + 1))")
        case True
        then obtain name ws2 where ws1: "ws1 = name # ws2"
          using w(5) by (cases ws1) (simp_all add: isWord_def)
        have nx: "args ! (e + 1) = Some name"
          using w(5) by (simp add: ws1)
        have nl: "length name < ARBITRARY_MAX_WORD_LENGTH"
          using sh by (simp add: ws1 short_Cons)
        have iw: "isWord (Some name)"
          using True nx by simp
        have l: "parseArgs_loop getpid g args a e =
            parseArgs_loop getpid
              (g\<lparr>inputRedirectionFlag := True, inputRedirectionFileName := name\<rparr>) args a (e + 2)"
          by (rule loop_input[OF w(3) w(2)[unfolded lt] nx iw nl])
        have p: "parse_words getpid g ws =
            parse_words getpid
              (g\<lparr>inputRedirectionFlag := True, inputRedirectionFileName := name\<rparr>) ws2"
          unfolding Cons ws1 lt by (rule words_input[OF iw])
        show ?thesis
          unfolding l p by (rule redirect[OF ws1])
      next
        case False
        have l: "parseArgs_loop getpid g args a e =
            parseArgs_loop getpid g (fst (argsFilterDown args a e)) (a + 1) (e + 1)"
          by (rule loop_operator_kept[OF w(3) w(2) _ False]) (simp add: lt)
        have p: "parse_words getpid g ws =
            (word # fst (parse_words getpid g ws1), snd (parse_words getpid g ws1))"
          unfolding Cons
          by (rule words_operator_kept) (use False w(5) lt in simp_all)
        show ?thesis
          unfolding l p fst_conv snd_conv by (rule keep_same)
      qed
    next
      case gt
      show ?thesis
      proof (cases "isWord (args ! (e + 1))")
        case True
        then obtain name ws2 where ws1: "ws1 = name # ws2"
          using w(5) by (cases ws1) (simp_all add: isWord_def)
        have nx: "args ! (e + 1) = Some name"
          using w(5) by (simp add: ws1)
        have nl: "length name < ARBITRARY_MAX_WORD_LENGTH"
          using sh by (simp add: ws1 short_Cons)
        have iw: "isWord (Some name)"
          using True nx by simp
        have l: "parseArgs_loop getpid g args a e =
            parseArgs_loop getpid
              (g\<lparr>outputRedirectionFlag := True, outputRedirectionFileName := name\<rparr>) args a (e + 2)"
          by (rule loop_output[OF w(3) w(2)[unfolded gt] nx iw nl])
        have p: "parse_words getpid g ws =
            parse_words getpid
              (g\<lparr>outputRedirectionFlag := True, outputRedirectionFileName := name\<rparr>) ws2"
          unfolding Cons ws1 gt by (rule words_output[OF iw])
        show ?thesis
          unfolding l p by (rule redirect[OF ws1])
      next
        case False
        have l: "parseArgs_loop getpid g args a e =
            parseArgs_loop getpid g (fst (argsFilterDown args a e)) (a + 1) (e + 1)"
          by (rule loop_operator_kept[OF w(3) w(2) _ False]) (simp add: gt)
        have p: "parse_words getpid g ws =
            (word # fst (parse_words getpid g ws1), snd (parse_words getpid g ws1))"
          unfolding Cons
          by (rule words_operator_kept) (use False w(5) gt in simp_all)
        show ?thesis
          unfolding l p fst_conv snd_conv by (rule keep_same)
      qed
    next
      case dd
      have l: "parseArgs_loop getpid g args a e =
          parseArgs_loop getpid g (args[e := Some (string_of_nat getpid)]) a e"
        by (rule loop_marker[OF w(1) w(2)[unfolded dd]])
      have p: "parse_words getpid g ws = parse_words getpid g (string_of_nat getpid # ws1)"
        unfolding Cons dd by (rule words_marker)
      have w0: "window (args[e := Some (string_of_nat getpid)]) e (string_of_nat getpid # ws1)"
        by (rule window_replace[OF win])
      have m: "2 * length (string_of_nat getpid # ws1) +
            (if string_of_nat getpid # ws1 \<noteq> [] \<and> hd (string_of_nat getpid # ws1) = ''$$''
             then 1 else 0)
          < 2 * length ws + (if ws \<noteq> [] \<and> hd ws = ''$$'' then 1 else 0)"
        using dd by (simp add: Cons string_of_nat_not_marker)
      have s0: "short (tl (string_of_nat getpid # ws1))"
        using sh by simp
      have "\<exists>args'. parseArgs_loop getpid g (args[e := Some (string_of_nat getpid)]) a e =
          Inr (args', a + length (fst (parse_words getpid g (string_of_nat getpid # ws1))),
               snd (parse_words getpid g (string_of_nat getpid # ws1))) \<and>
        filtered (args[e := Some (string_of_nat getpid)]) a
           (e + length (string_of_nat getpid # ws1))
           (fst (parse_words getpid g (string_of_nat getpid # ws1))) args'"
        by (rule less.hyps[OF m w0 less.prems(2) s0])
      then obtain args' where r:
        "parseArgs_loop getpid g (args[e := Some (string_of_nat getpid)]) a e =
          Inr (args', a + length (fst (parse_words getpid g (string_of_nat getpid # ws1))),
               snd (parse_words getpid g (string_of_nat getpid # ws1)))"
        "filtered (args[e := Some (string_of_nat getpid)]) a
           (e + length (string_of_nat getpid # ws1))
           (fst (parse_words getpid g (string_of_nat getpid # ws1))) args'"
        by blast
      have "filtered args a (e + length (string_of_nat getpid # ws1))
           (fst (parse_words getpid g (string_of_nat getpid # ws1))) args'"
        by (rule filtered_replace[OF r(2) less.prems(2)]) simp
      then have "filtered args a (e + length ws)
           (fst (parse_words getpid g (string_of_nat getpid # ws1))) args'"
        by (simp add: Cons)
      then show ?thesis
        unfolding l p using r(1) by blast
    next
      case amp
      show ?thesis
      proof (cases ws1)
        case Nil
        have nx: "args ! (e + 1) = None"
          using w(5) by (simp add: Nil)
        have l: "parseArgs_loop getpid g args a e =
            parseArgs_loop getpid (g\<lparr>backgroundFlag := background_allowed g\<rparr>) args a (e + 1)"
          by (rule loop_background[OF w(3) w(2)[unfolded amp] nx])
        have p: "parse_words getpid g ws = ([], g\<lparr>backgroundFlag := background_allowed g\<rparr>)"
          unfolding \<open>ws = word # ws1\<close> Nil amp by (rule words_background)
        have "parseArgs_loop getpid (g\<lparr>backgroundFlag := background_allowed g\<rparr>) args a (e + 1)
            = Inr (args, a, g\<lparr>backgroundFlag := background_allowed g\<rparr>)"
          by (rule loop_end[OF w(3) nx])
        moreover have "filtered args a (e + length ws) [] args"
          using less.prems(2) by (simp add: filtered_def)
        ultimately show ?thesis
          unfolding l p by simp
      next
        case (Cons name ws2)
        have nx: "args ! (e + 1) \<noteq> None"
          using w(5) by (simp add: Cons)
        have l: "parseArgs_loop getpid g args a e =
            parseArgs_loop getpid g (fst (argsFilterDown args a e)) (a + 1) (e + 1)"
          by (rule loop_ampersand_kept[OF w(3) w(2)[unfolded amp] nx])
        have ne: "ws1 \<noteq> []"
          by (simp add: Cons)
        have p: "parse_words getpid g ws =
            (word # fst (parse_words getpid g ws1), snd (parse_words getpid g ws1))"
          unfolding \<open>ws = word # ws1\<close> amp by (rule words_ampersand_kept[OF ne])
        show ?thesis
          unfolding l p fst_conv snd_conv by (rule keep_same)
      qed
    next
      case other
      have l: "parseArgs_loop getpid g args a e =
          parseArgs_loop getpid g
            (fst (argsFilterDown (args[e := Some (replaceDoubleDollars getpid word)]) a e))
            (a + 1) (e + 1)"
        by (rule loop_word[OF w(1) w(2) other])
      have p: "parse_words getpid g ws =
          (replaceDoubleDollars getpid word # fst (parse_words getpid g ws1),
           snd (parse_words getpid g ws1))"
        unfolding Cons by (rule words_word[OF other])
      show ?thesis
        unfolding l p fst_conv snd_conv by (rule keep)
    qed
  qed
qed

lemma window_prefix:
  assumes "window args 0 ws"
  shows "args = map Some ws @ None # drop (Suc (length ws)) args"
proof -
  have n: "length ws < length args" "args ! length ws = None"
    and k: "\<forall>k<length ws. args ! k = Some (ws ! k)"
    using assms by (simp_all add: window_def)
  have "take (length ws) args = map Some ws"
    using n(1) k by (intro nth_equalityI) simp_all
  then show ?thesis
    using id_take_nth_drop[OF n(1)] n(2) by simp
qed

lemma argv_window: "window args 0 ws \<Longrightarrow> argv args = ws"
proof -
  assume "window args 0 ws"
  then obtain rest where a: "args = map Some ws @ None # rest"
    using window_prefix by blast
  have "takeWhile (\<lambda>a. a \<noteq> None) (map Some ws @ None # rest) =
      map Some ws @ takeWhile (\<lambda>a. a \<noteq> None) (None # rest)"
    by (rule takeWhile_append2) auto
  then show ?thesis
    unfolding a by (simp add: argv_def comp_def)
qed

lemma window_argv:
  assumes "None \<in> set args"
  shows "window args 0 (argv args)"
proof -
  define tw where "tw = takeWhile (\<lambda>a::string option. a \<noteq> None) args"
  have "dropWhile (\<lambda>a. a \<noteq> None) args \<noteq> []"
    using assms by (simp add: dropWhile_eq_Nil_conv)
  then have "0 < length (dropWhile (\<lambda>a. a \<noteq> None) args)"
    by (cases "dropWhile (\<lambda>a. a \<noteq> None) args") (simp_all del: dropWhile_eq_Nil_conv)
  moreover have "length tw + length (dropWhile (\<lambda>a. a \<noteq> None) args) = length args"
    unfolding tw_def by (metis length_append takeWhile_dropWhile_id)
  ultimately have lt: "length tw < length args"
    by linarith
  then have z: "args ! length tw = None"
    using nth_length_takeWhile[of "\<lambda>a. a \<noteq> None" args] by (simp add: tw_def)
  have "args ! k = Some (map the tw ! k)" if "k < length tw" for k
  proof -
    have e: "tw ! k = args ! k"
      using that unfolding tw_def by (rule takeWhile_nth)
    have "tw ! k \<in> set tw"
      using that by simp
    then have "tw ! k \<noteq> None"
      unfolding tw_def by (rule set_takeWhileD[THEN conjunct2])
    then show ?thesis
      using that e by auto
  qed
  then show ?thesis
    using lt z by (simp add: window_def argv_def tw_def)
qed

lemma argv_tokens: "0 < n \<Longrightarrow> argv (map Some ws @ replicate n None) = ws"
proof -
  assume "0 < n"
  then obtain m where "n = Suc m" by (cases n) auto
  then have "window (map Some ws @ replicate n None) 0 ws"
    by (simp add: window_def nth_append)
  then show ?thesis by (rule argv_window)
qed

lemma parseArgs_parse_words:
  assumes "window args 0 ws" "short (tl ws)"
  shows "\<exists>args'. parseArgs getpid g args = Inr (args', snd (parse_words getpid g ws)) \<and>
           window args' 0 (fst (parse_words getpid g ws)) \<and> length args' = length args \<and>
           (\<forall>k>length ws. args' ! k = args ! k)"
proof -
  define kept where "kept = fst (parse_words getpid g ws)"
  obtain args1 where r:
    "parseArgs_loop getpid g args 0 0 =
       Inr (args1, 0 + length kept, snd (parse_words getpid g ws))"
    "filtered args 0 (0 + length ws) kept args1"
    using parseArgs_loop_parse_words[OF assms(1) _ assms(2), of 0 getpid g]
    unfolding kept_def by blast
  have f: "length args1 = length args" "\<forall>k<length kept. args1 ! k = Some (kept ! k)"
    "\<forall>k>length ws. args1 ! k = args ! k" "length kept \<le> length ws"
    using r(2) by (simp_all add: filtered_def)
  have b: "length ws < length args"
    using assms(1) by (simp add: window_def)
  have "parseArgs getpid g args =
      Inr (args1[length kept := None], snd (parse_words getpid g ws))"
    using r(1) by (simp add: parseArgs_def)
  moreover have "window (args1[length kept := None]) 0 kept"
    using f b by (simp add: window_def)
  moreover have "\<forall>k>length ws. (args1[length kept := None]) ! k = args ! k"
    using f by simp
  ultimately show ?thesis
    using f(1) unfolding kept_def by simp
qed

lemma getArgs_Inr:
  assumes "getArgs promptInput args0 = Inr args" "length args0 = MAX_NUMBER_ARGS"
  shows "args = map Some (split_words promptInput []) @
           replicate (MAX_NUMBER_ARGS - length (split_words promptInput [])) None"
    "short (split_words promptInput [])" "length (split_words promptInput []) \<le> MAX_NUMBER_ARGS"
    "length args = MAX_NUMBER_ARGS"
  using assms(1) unfolding getArgs_split_words[OF assms(2)]
  by (auto split: if_splits)

lemma getArgs_window:
  assumes "getArgs promptInput args0 = Inr args" "length args0 = MAX_NUMBER_ARGS" "None \<in> set args"
  shows "window args 0 (split_words promptInput [])" "argv args = split_words promptInput []"
proof -
  note g = getArgs_Inr[OF assms(1,2)]
  have "length (split_words promptInput []) \<noteq> MAX_NUMBER_ARGS"
    using assms(3) g(1) by auto
  then have lt: "length (split_words promptInput []) < MAX_NUMBER_ARGS"
    using g(3) by simp
  show "window args 0 (split_words promptInput [])"
    unfolding window_def using lt g(4) by (simp add: g(1) nth_append)
  then show "argv args = split_words promptInput []"
    by (rule argv_window)
qed

section \<open>Properties of the parser\<close>

lemma parse_words_backgroundFlag:
  "\<not> backgroundFlag g \<Longrightarrow>
   backgroundFlag (snd (parse_words getpid g ws)) =
     (ws \<noteq> [] \<and> last ws = ''&'' \<and> background_allowed g)"
proof (induction g ws rule: parse_words_induct)
  case (redirect_in g name ws)
  then show ?case using isWord_Some[of name] by (simp add: words_input)
next
  case (redirect_out g name ws)
  then show ?case using isWord_Some[of name] by (simp add: words_output)
next
  case (operator_kept g word ws)
  then show ?case by (auto simp: words_operator_kept)
next
  case (marker g ws)
  then show ?case by (simp add: words_marker_kept)
next
  case (background g)
  then show ?case by (simp add: words_background)
next
  case (ampersand_kept g ws)
  then show ?case by (simp add: words_ampersand_kept)
next
  case (word g word ws)
  then show ?case by (simp add: words_word)
qed simp

lemma parse_words_background_allowed:
  "background_allowed (snd (parse_words getpid g ws)) = background_allowed g"
  by (induction g ws rule: parse_words_induct)
     (simp_all add: words_input words_output words_operator_kept words_marker_kept
        words_background words_ampersand_kept words_word)

lemma parse_words_ampersands:
  "filter (\<lambda>w. w = ''&'') (fst (parse_words getpid g ws)) =
   filter (\<lambda>w. w = ''&'') (butlast ws)"
proof (induction g ws rule: parse_words_induct)
  case (redirect_in g name ws)
  then show ?case using isWord_Some[of name] by (simp add: words_input)
next
  case (redirect_out g name ws)
  then show ?case using isWord_Some[of name] by (simp add: words_output)
next
  case (operator_kept g word ws)
  then show ?case by (auto simp: words_operator_kept)
next
  case (marker g ws)
  then show ?case by (simp add: words_marker_kept string_of_nat_not_special)
next
  case (background g)
  then show ?case by (simp add: words_background)
next
  case (ampersand_kept g ws)
  then show ?case by (simp add: words_ampersand_kept)
next
  case (word g word ws)
  then show ?case
    using replaceDoubleDollars_ampersand[of getpid word] by (auto simp: words_word)
qed simp

lemma parse_words_reduced:
  "\<forall>w \<in> set ws. w \<noteq> ''<'' \<and> w \<noteq> ''>'' \<and> \<not> sublist ''$$'' w \<Longrightarrow>
   ws = [] \<or> last ws \<noteq> ''&'' \<Longrightarrow>
   parse_words getpid g ws = (ws, g)"
proof (induction g ws rule: parse_words_induct)
  case (ampersand_kept g ws)
  then show ?case by (simp add: words_ampersand_kept)
next
  case (word g word ws)
  have "replaceDoubleDollars getpid word = word"
    using word.prems(1) by (simp add: replaceDoubleDollars_subst_first subst_first_no_marker)
  moreover have "parse_words getpid g ws = (ws, g)"
    using word by (cases ws) auto
  ultimately show ?case
    using word.hyps by (simp add: words_word)
qed auto

lemma parse_words_subseq:
  "\<exists>ks. subseq ks ws \<and> fst (parse_words getpid g ws) = map (replaceDoubleDollars getpid) ks"
proof (induction g ws rule: parse_words_induct)
  case (Nil g)
  then show ?case by simp
next
  case (redirect_in g name ws)
  then obtain ks where "subseq ks ws"
    "fst (parse_words getpid (g\<lparr>inputRedirectionFlag := True, inputRedirectionFileName := name\<rparr>) ws)
       = map (replaceDoubleDollars getpid) ks"
    by blast
  then show ?case
    using redirect_in.hyps by (auto simp: words_input intro!: exI[of _ ks])
next
  case (redirect_out g name ws)
  then obtain ks where "subseq ks ws"
    "fst (parse_words getpid (g\<lparr>outputRedirectionFlag := True, outputRedirectionFileName := name\<rparr>) ws)
       = map (replaceDoubleDollars getpid) ks"
    by blast
  then show ?case
    using redirect_out.hyps by (auto simp: words_output intro!: exI[of _ ks])
next
  case (operator_kept g word ws)
  then obtain ks where ks: "subseq ks ws"
    "fst (parse_words getpid g ws) = map (replaceDoubleDollars getpid) ks"
    by blast
  have "replaceDoubleDollars getpid word = word"
    using operator_kept.hyps(1)
    by (auto simp: replaceDoubleDollars_subst_first)
  then show ?case
    using ks operator_kept.hyps
    by (auto simp: words_operator_kept intro!: exI[of _ "word # ks"])
next
  case (marker g ws)
  then obtain ks where ks: "subseq ks ws"
    "fst (parse_words getpid g ws) = map (replaceDoubleDollars getpid) ks"
    by blast
  have "replaceDoubleDollars getpid ''$$'' = string_of_nat getpid"
    by (simp add: replaceDoubleDollars_subst_first)
  then show ?case
    using ks by (auto simp: words_marker_kept intro!: exI[of _ "''$$'' # ks"])
next
  case (background g)
  then show ?case by (auto simp: words_background intro!: exI[of _ "[]"])
next
  case (ampersand_kept g ws)
  then obtain ks where ks: "subseq ks ws"
    "fst (parse_words getpid g ws) = map (replaceDoubleDollars getpid) ks"
    by blast
  have "replaceDoubleDollars getpid ''&'' = ''&''"
    by (simp add: replaceDoubleDollars_subst_first)
  then show ?case
    using ks ampersand_kept.hyps
    by (auto simp: words_ampersand_kept intro!: exI[of _ "''&'' # ks"])
next
  case (word g word ws)
  then obtain ks where ks: "subseq ks ws"
    "fst (parse_words getpid g ws) = map (replaceDoubleDollars getpid) ks"
    by blast
  then show ?case
    using word.hyps by (auto simp: words_word intro!: exI[of _ "word # ks"])
qed

lemma parse_words_empty_word:
  "[] \<in> set (fst (parse_words getpid g ws)) \<longleftrightarrow> [] \<in> set ws"
proof (induction g ws rule: parse_words_induct)
  case (redirect_in g name ws)
  then show ?case using isWord_Some[of name] by (auto simp: words_input)
next
  case (redirect_out g name ws)
  then show ?case using isWord_Some[of name] by (auto simp: words_output)
next
  case (operator_kept g word ws)
  then show ?case by (auto simp: words_operator_kept)
next
  case (marker g ws)
  then show ?case using string_of_nat_nonempty[of getpid] by (auto simp: words_marker_kept)
next
  case (background g)
  then show ?case by (simp add: words_background)
next
  case (ampersand_kept g ws)
  then show ?case by (simp add: words_ampersand_kept)
next
  case (word g word ws)
  then show ?case
    using replaceDoubleDollars_empty[of getpid word] by (auto simp: words_word)
qed simp

lemma parse_words_file_names:
  "inputRedirectionFileName (snd (parse_words getpid g ws)) \<in>
     insert (inputRedirectionFileName g) (set ws) \<and>
   outputRedirectionFileName (snd (parse_words getpid g ws)) \<in>
     insert (outputRedirectionFileName g) (set ws)"
  by (induction g ws rule: parse_words_induct)
     (auto simp: words_input words_output words_operator_kept words_marker_kept
        words_background words_ampersand_kept words_word)

text \<open>
  What the parser does with \<^verbatim>\<open>$$\<close>: the reduced argument vector consists of words of the
  line (a subsequence: those not consumed as directives), each passed through
  \<^verbatim>\<open>replaceDoubleDollars\<close>, which replaces the leftmost \<^verbatim>\<open>$$\<close> of a word by the decimal
  process id; a file name recorded for a redirection is a word of the line, unchanged.
\<close>

lemma marker_replaced_once_in_kept_words:
  assumes "getArgs promptInput args0 = Inr args" "length args0 = MAX_NUMBER_ARGS"
    "None \<in> set args"
  shows "(\<exists>args' g' kept. parseArgs getpid g args = Inr (args', g') \<and>
            subseq kept (argv args) \<and>
            argv args' = map (replaceDoubleDollars getpid) kept \<and>
            inputRedirectionFileName g' \<in> insert (inputRedirectionFileName g) (set (argv args)) \<and>
            outputRedirectionFileName g' \<in> insert (outputRedirectionFileName g) (set (argv args))) \<and>
         (\<forall>pre post. \<not> sublist ''$$'' (pre @ ''$'') \<longrightarrow>
            replaceDoubleDollars getpid (pre @ ''$$'' @ post) = pre @ string_of_nat getpid @ post) \<and>
         (\<forall>word. \<not> sublist ''$$'' word \<longrightarrow> replaceDoubleDollars getpid word = word)"
proof -
  have win: "window args 0 (argv args)"
    by (rule window_argv[OF assms(3)])
  have "short (argv args)"
    using getArgs_Inr(2)[OF assms(1,2)] getArgs_window(2)[OF assms] by simp
  then have sh: "short (tl (argv args))"
    by (cases "argv args") (simp_all add: short_Cons)
  obtain args' where r:
    "parseArgs getpid g args = Inr (args', snd (parse_words getpid g (argv args)))"
    "window args' 0 (fst (parse_words getpid g (argv args)))"
    using parseArgs_parse_words[OF win sh, of getpid g] by auto
  have a: "argv args' = fst (parse_words getpid g (argv args))"
    by (rule argv_window[OF r(2)])
  obtain kept where k: "subseq kept (argv args)"
    "fst (parse_words getpid g (argv args)) = map (replaceDoubleDollars getpid) kept"
    using parse_words_subseq by blast
  have 1: "\<exists>args' g' kept. parseArgs getpid g args = Inr (args', g') \<and>
            subseq kept (argv args) \<and>
            argv args' = map (replaceDoubleDollars getpid) kept \<and>
            inputRedirectionFileName g' \<in> insert (inputRedirectionFileName g) (set (argv args)) \<and>
            outputRedirectionFileName g' \<in> insert (outputRedirectionFileName g) (set (argv args))"
    using r(1) a k parse_words_file_names[of getpid g "argv args"]
    by (intro exI[of _ args'] exI[of _ "snd (parse_words getpid g (argv args))"] exI[of _ kept])
       simp
  have 2: "\<forall>pre post. \<not> sublist ''$$'' (pre @ ''$'') \<longrightarrow>
            replaceDoubleDollars getpid (pre @ ''$$'' @ post) = pre @ string_of_nat getpid @ post"
    unfolding replaceDoubleDollars_subst_first
    by (intro allI impI) (rule subst_first_leftmost)
  have 3: "\<forall>word. \<not> sublist ''$$'' word \<longrightarrow> replaceDoubleDollars getpid word = word"
    by (intro allI impI) (simp add: replaceDoubleDollars_subst_first subst_first_no_marker)
  show ?thesis
    by (intro conjI 1 2 3)
qed

section \<open>Where \<^verbatim>\<open>status\<close> is assigned\<close>

lemma spawnProcess_status:
  "spawnProcess os sh = Parent sh' \<Longrightarrow>
   foreground_waits sh \<le> foreground_waits sh' \<and>
   (foreground_waits sh' = foreground_waits sh \<longrightarrow> main_status sh' = main_status sh)"
  by (auto simp: spawnProcess_def Let_def split: if_splits prod.splits wstatus.splits)

lemma dispatch_status:
  "dispatch uninitialised os sh = Continue sh' \<Longrightarrow>
   foreground_waits sh \<le> foreground_waits sh' \<and>
   (foreground_waits sh' = foreground_waits sh \<longrightarrow> main_status sh' = main_status sh)"
  using spawnProcess_status[of os sh]
  by (auto simp: dispatch_def Let_def status_builtin_def split: if_splits spawned.splits)

lemma main_step_status:
  "main_step uninitialised getpid os sh = Inr (Continue sh') \<Longrightarrow>
   foreground_waits sh \<le> foreground_waits sh' \<and>
   (foreground_waits sh' = foreground_waits sh \<longrightarrow> main_status sh' = main_status sh)"
  by (auto simp: main_step_def split: sum.splits prod.splits dest!: dispatch_status)

lemma run_main_status:
  "run_main uninitialised getpid oss sh = Inr (Continue sh') \<Longrightarrow>
   foreground_waits sh \<le> foreground_waits sh' \<and>
   (foreground_waits sh' = foreground_waits sh \<longrightarrow> main_status sh' = main_status sh)"
proof (induction oss arbitrary: sh)
  case Nil
  then show ?case by simp
next
  case (Cons os oss)
  then obtain sh1 where s: "main_step uninitialised getpid os sh = Inr (Continue sh1)"
    "run_main uninitialised getpid oss sh1 = Inr (Continue sh')"
    by (auto split: sum.splits step.splits)
  show ?case
    using main_step_status[OF s(1)] Cons.IH[OF s(2)] by auto
qed

section \<open>Evaluations at concrete inputs\<close>

lemma eval_ten_adds:
  "run_ops (createProcessArray stale)
     [Add stale 1, Add stale 2, Add stale 3, Add stale 4, Add stale 5,
      Add stale 6, Add stale 7, Add stale 8, Add stale 9, Add stale 10]
     = \<lparr>capacity = 10, size' = 10, array = [1, 2, 3, 4, 5, 6, 7, 8, 9, 10]\<rparr>"
  by code_simp

lemma eval_eleven_adds:
  "run_ops (createProcessArray stale)
     [Add stale 1, Add stale 2, Add stale 3, Add stale 4, Add stale 5,
      Add stale 6, Add stale 7, Add stale 8, Add stale 9, Add stale 10, Add stale 11]
     = \<lparr>capacity = 20, size' = 11,
         array = [1, 2, 3, 4, 5, 6, 7, 8, 9, 10, 11, 0, 0, 0, 0, 0, 0, 0, 0, 0]\<rparr>"
  by code_simp

lemma eval_mixed_ops:
  "run_ops (createProcessArray stale) [Add stale 5, Add stale 7, Remove 5, Add stale 9]
     = \<lparr>capacity = 10, size' = 2, array = [7, 9, 0, 0, 0, 0, 0, 0, 0, 0]\<rparr>"
  by code_simp

lemma eval_reduced_args:
  "argv (map Some [''ls'', ''-l'', ''&'', ''x''] @ replicate 508 None) = [''ls'', ''-l'', ''&'', ''x'']"
  by (simp add: argv_def)

lemma eval_getArgs_single_separators:
  "getArgs ''ls -l'' initializeArgs = Inr (map Some [''ls'', ''-l''] @ replicate 510 None)"
  by code_simp

lemma eval_status_run:
  "run_main \<lparr>code = 42, sig = False\<rparr> 1234 [idle_os (''status'' @ [CHR 0x0A])] (main_init 1234 stale) =
   Inr (Continue (main_init 1234 stale\<lparr>main_globals :=
          initial_globals\<lparr>stdout := [''shallsh pid: 1234'' @ [CHR 0x0A], '':'',
            ''exit value 42'' @ [CHR 0x0A]]\<rparr>,
      main_args := map Some [''status''] @ replicate 511 None\<rparr>))"
  by code_simp

section \<open>The claims\<close>

text \<open>
  C1, as the code has it. For every spawned command, whatever the flags, the files and the
  answer of \<^verbatim>\<open>execvp\<close>, the child has set the disposition of \<^verbatim>\<open>SIGTSTP\<close> to
  \<^verbatim>\<open>SIG_IGN\<close> (ignore), not to the default, when it reaches \<^verbatim>\<open>execvp\<close> or exits: the
  spawned program ignores the stop signal.
\<close>

theorem child_ignores_stop_signal:
  "sigtstp (snd (spawnProcess_child can_open execvp g args c)) = SIG_IGN"
  by (simp add: spawnProcess_child_def Let_def dup2_0_def dup2_1_def
      split: sum.splits option.splits fd.splits)

text \<open>
  C1 as stated fails: the child of the command \<^verbatim>\<open>ls\<close> reaches \<^verbatim>\<open>execvp\<close> with
  \<^verbatim>\<open>SIGTSTP\<close> ignored, not with the default disposition.
\<close>

theorem child_default_stop_signal_counterexample:
  "spawnProcess_child (\<lambda>path flags. True) (\<lambda>av. None) initial_globals
      (map Some [''ls''] @ replicate 511 None) forked_child =
     (Exec [''ls''], \<lparr>sigtstp = SIG_IGN, fd0 = None, fd1 = None, child_stdout = []\<rparr>)"
proof -
  have "argv (map Some [''ls''] @ replicate 511 None) = [''ls'']"
    by (simp add: argv_def)
  then show ?thesis
    by (simp add: spawnProcess_child_def initial_globals_def forked_child_def)
qed

text \<open>
  C2 at a failing input. With output redirection to a path that cannot be opened, the child
  prints nothing, keeps its standard output and reaches \<^verbatim>\<open>execvp\<close>; with input redirection
  from a path that cannot be opened, the child reports the file and exits with status 1.
\<close>

theorem output_open_failure_reaches_execvp:
  "spawnProcess_child (\<lambda>path flags. path \<noteq> ''/nodir/out'') (\<lambda>av. None)
      (initial_globals\<lparr>outputRedirectionFlag := True,
                        outputRedirectionFileName := ''/nodir/out''\<rparr>)
      (map Some [''ls''] @ replicate 511 None) forked_child =
     (Exec [''ls''], \<lparr>sigtstp = SIG_IGN, fd0 = None, fd1 = None, child_stdout = []\<rparr>) \<and>
   spawnProcess_child (\<lambda>path flags. path \<noteq> ''/nodir/in'') (\<lambda>av. None)
      (initial_globals\<lparr>inputRedirectionFlag := True,
                        inputRedirectionFileName := ''/nodir/in''\<rparr>)
      (map Some [''ls''] @ replicate 511 None) forked_child =
     (Exit 1, \<lparr>sigtstp = SIG_IGN, fd0 = None, fd1 = None,
         child_stdout = [''cannot open /nodir/in for input'' @ [CHR 0x0A]]\<rparr>)"
proof -
  have "argv (map Some [''ls''] @ replicate 511 None) = [''ls'']"
    by (simp add: argv_def)
  then show ?thesis
    by (simp add: spawnProcess_child_def initial_globals_def forked_child_def os_open_def
        dup2_1_def)
qed

text \<open>
  C3 at a failing input. In the line \<^verbatim>\<open>echo a$$b$$ > out$$\<close> the first \<^verbatim>\<open>$$\<close> of the
  word is replaced by the process id; the second \<^verbatim>\<open>$$\<close> of the word and the \<^verbatim>\<open>$$\<close> of
  the redirection target are not.
\<close>

theorem marker_not_replaced_at_failing_input:
  "parse_line 1234 initial_globals ''echo a$$b$$ > out$$'' =
     Inr ([''echo'', ''a1234b$$''],
          initial_globals\<lparr>outputRedirectionFlag := True, outputRedirectionFileName := ''out$$''\<rparr>)"
  by code_simp

text \<open>
  C4, as the code has it. For every argument array that is terminated and whose words fit
  the buffers, parsed with the background flag reset: the flag is set exactly when the last
  word is \<^verbatim>\<open>&\<close> and background execution is allowed; a last word \<^verbatim>\<open>&\<close> is always removed
  from the argument vector, allowed or not; every \<^verbatim>\<open>&\<close> that is not the last word stays
  in the argument vector.
\<close>

theorem parseArgs_background_flag:
  assumes "None \<in> set args" "short (argv args)" "\<not> backgroundFlag g"
  shows "\<exists>args' g'. parseArgs getpid g args = Inr (args', g') \<and>
      (backgroundFlag g' \<longleftrightarrow>
         argv args \<noteq> [] \<and> last (argv args) = ''&'' \<and> background_allowed g) \<and>
      filter (\<lambda>w. w = ''&'') (argv args') = filter (\<lambda>w. w = ''&'') (butlast (argv args))"
proof -
  have win: "window args 0 (argv args)"
    by (rule window_argv[OF assms(1)])
  have sh: "short (tl (argv args))"
    using assms(2) by (cases "argv args") (simp_all add: short_Cons)
  obtain args' where r:
    "parseArgs getpid g args = Inr (args', snd (parse_words getpid g (argv args)))"
    "window args' 0 (fst (parse_words getpid g (argv args)))"
    using parseArgs_parse_words[OF win sh, of getpid g] by auto
  have "argv args' = fst (parse_words getpid g (argv args))"
    by (rule argv_window[OF r(2)])
  then show ?thesis
    using r(1) parse_words_backgroundFlag[OF assms(3), of getpid "argv args"]
      parse_words_ampersands[of getpid g "argv args"]
    by simp
qed

text \<open>The statement of C4 at the words \<^verbatim>\<open>sleep 5 &\<close> with background execution allowed.\<close>

theorem parseArgs_background_flag_witness:
  "\<exists>args' g'. parseArgs 1234 initial_globals (map Some [''sleep'', ''5'', ''&''] @ replicate 509 None)
       = Inr (args', g') \<and>
     backgroundFlag g' \<and> filter (\<lambda>w. w = ''&'') (argv args') = []"
proof -
  have a: "argv (map Some [''sleep'', ''5'', ''&''] @ replicate 509 None) = [''sleep'', ''5'', ''&'']"
    by (rule argv_tokens) simp
  have h1: "None \<in> set (map Some [''sleep'', ''5'', ''&''] @ replicate 509 None)"
    by simp
  have h2: "short (argv (map Some [''sleep'', ''5'', ''&''] @ replicate 509 None))"
    unfolding a by (simp add: short_def ARBITRARY_MAX_WORD_LENGTH_def)
  have h3: "\<not> backgroundFlag initial_globals"
    by (simp add: initial_globals_def)
  show ?thesis
    using parseArgs_background_flag[OF h1 h2 h3, of 1234]
    unfolding a by (simp add: initial_globals_def)
qed

text \<open>
  C4 as stated fails: with background execution disallowed, \<^verbatim>\<open>sleep 5 &\<close> yields a flag that
  is false and an argument vector without the \<^verbatim>\<open>&\<close>.
\<close>

theorem parseArgs_background_flag_counterexample:
  "parse_line 1234 (initial_globals\<lparr>background_allowed := False\<rparr>) ''sleep 5 &'' =
     Inr ([''sleep'', ''5''], initial_globals\<lparr>background_allowed := False\<rparr>)"
  by code_simp

text \<open>
  C5, as the code has it. Tokenization splits at every single space or tab, and parsing keeps
  every empty word: for every input line that fits the argument array, the reduced argument
  vector contains an empty element exactly when the line is empty, begins or ends with a
  separator, or has two separators in a row.
\<close>

theorem empty_argument_iff_separator_not_single:
  assumes "getArgs promptInput args0 = Inr args" "length args0 = MAX_NUMBER_ARGS"
    "None \<in> set args"
  shows "\<exists>args' g'. parseArgs getpid g args = Inr (args', g') \<and>
      ([] \<in> set (argv args') \<longleftrightarrow>
         promptInput = [] \<or> blank (hd promptInput) \<or> blank (last promptInput) \<or>
         (\<exists>i. Suc i < length promptInput \<and> blank (promptInput ! i) \<and> blank (promptInput ! Suc i)))"
proof -
  have win: "window args 0 (argv args)"
    by (rule window_argv[OF assms(3)])
  have av: "argv args = split_words promptInput []"
    by (rule getArgs_window(2)[OF assms])
  have "short (argv args)"
    using getArgs_Inr(2)[OF assms(1,2)] av by simp
  then have sh: "short (tl (argv args))"
    by (cases "argv args") (simp_all add: short_Cons)
  obtain args' where r:
    "parseArgs getpid g args = Inr (args', snd (parse_words getpid g (argv args)))"
    "window args' 0 (fst (parse_words getpid g (argv args)))"
    using parseArgs_parse_words[OF win sh, of getpid g] by auto
  have a: "argv args' = fst (parse_words getpid g (argv args))"
    by (rule argv_window[OF r(2)])
  have "[] \<in> set (argv args') \<longleftrightarrow> [] \<in> set (split_words promptInput [])"
    unfolding a av by (rule parse_words_empty_word)
  also have "\<dots> \<longleftrightarrow> promptInput = [] \<or> blank (hd promptInput) \<or> blank (last promptInput) \<or>
         (\<exists>i. Suc i < length promptInput \<and> blank (promptInput ! i) \<and> blank (promptInput ! Suc i))"
    unfolding split_words_empty_word adjacent_blanks_nth by auto
  finally show ?thesis
    using r(1) by blast
qed

text \<open>The statement of C5 at the line \<^verbatim>\<open>ls -l\<close>.\<close>

theorem empty_argument_iff_separator_not_single_witness:
  "getArgs ''ls -l'' initializeArgs = Inr (map Some [''ls'', ''-l''] @ replicate 510 None) \<and>
   (\<exists>args' g'. parseArgs 1234 initial_globals (map Some [''ls'', ''-l''] @ replicate 510 None)
       = Inr (args', g') \<and> [] \<notin> set (argv args'))"
proof -
  have h3: "None \<in> set (map Some [''ls'', ''-l''] @ replicate 510 None)"
    by simp
  have b: "\<not> (''ls -l'' = [] \<or> blank (hd ''ls -l'') \<or> blank (last ''ls -l'') \<or>
         (\<exists>i. Suc i < length ''ls -l'' \<and> blank (''ls -l'' ! i) \<and> blank (''ls -l'' ! Suc i)))"
    unfolding adjacent_blanks_nth[symmetric] by (simp add: blank_def)
  show ?thesis
    using empty_argument_iff_separator_not_single[OF eval_getArgs_single_separators
        initializeArgs_length h3, of 1234 initial_globals] b eval_getArgs_single_separators
    by blast
qed

text \<open>C5 as stated fails: two spaces between \<^verbatim>\<open>ls\<close> and \<^verbatim>\<open>-l\<close> yield an empty argument.\<close>

theorem empty_argument_counterexample:
  "parse_line 1234 initial_globals ''ls  -l'' = Inr ([''ls'', [], ''-l''], initial_globals)"
  by code_simp




text \<open>
  C7. Whatever the blocks that \<^verbatim>\<open>malloc\<close> returns contain: starting from the empty
  registry, \<open>add(p1)\<close>, \<open>add(p2)\<close>, \<open>remove(p1)\<close> with distinct non-zero pids leaves an
  enumeration of exactly \<open>p2\<close>; and whenever an add meets a full array (\<open>size = capacity\<close>)
  in a registry reached from the empty one, the capacity becomes exactly twice what it was and
  every entry enumerated before is still enumerated, followed by the new pid.
\<close>

theorem registry_add_add_remove_and_growth:
  "(p1 \<noteq> 0 \<and> p2 \<noteq> 0 \<and> p1 \<noteq> p2 \<longrightarrow>
      live (processesRemove
              (processesAdd block_b (processesAdd block_a (createProcessArray block_init) p1) p2) p1) = [p2]) \<and>
   (valid_ops [] ops \<and>
    size' (run_ops (createProcessArray block_init) ops) =
      capacity (run_ops (createProcessArray block_init) ops) \<and>
    pid \<noteq> 0 \<and> pid \<notin> set (live (run_ops (createProcessArray block_init) ops)) \<longrightarrow>
      capacity (processesAdd block (run_ops (createProcessArray block_init) ops) pid) =
        2 * capacity (run_ops (createProcessArray block_init) ops) \<and>
      live (processesAdd block (run_ops (createProcessArray block_init) ops) pid) =
        live (run_ops (createProcessArray block_init) ops) @ [pid])"
proof (intro conjI impI)
  assume a: "p1 \<noteq> 0 \<and> p2 \<noteq> 0 \<and> p1 \<noteq> p2"
  have h0: "stores (createProcessArray block_init) []"
    by (rule createProcessArray_stores)
  have h1: "stores (processesAdd block_a (createProcessArray block_init) p1) [p1]"
    using processesAdd_stores[OF h0, where pid = p1 and block = block_a] a by simp
  have h2: "stores (processesAdd block_b (processesAdd block_a (createProcessArray block_init) p1) p2)
      [p1, p2]"
    using processesAdd_stores[OF h1, where pid = p2 and block = block_b] a by simp
  have "stores (processesRemove
      (processesAdd block_b (processesAdd block_a (createProcessArray block_init) p1) p2) p1) [p2]"
    using processesRemove_stores[OF h2, of p1] by simp
  then show "live (processesRemove
      (processesAdd block_b (processesAdd block_a (createProcessArray block_init) p1) p2) p1) = [p2]"
    by (rule stores_live)
next
  define procs where "procs = run_ops (createProcessArray block_init) ops"
  assume "valid_ops [] ops \<and>
    size' (run_ops (createProcessArray block_init) ops) =
      capacity (run_ops (createProcessArray block_init) ops) \<and>
    pid \<noteq> 0 \<and> pid \<notin> set (live (run_ops (createProcessArray block_init) ops))"
  then have a: "valid_ops [] ops" "size' procs = capacity procs" "pid \<noteq> 0" "pid \<notin> set (live procs)"
    by (simp_all add: procs_def)
  have h: "stores procs (pids_after [] ops)"
    unfolding procs_def by (rule run_ops_stores[OF createProcessArray_stores a(1)])
  have l: "live procs = pids_after [] ops"
    by (rule stores_live[OF h])
  have r: "stores (processesAdd block procs pid) (pids_after [] ops @ [pid]) \<and>
         capacity (processesAdd block procs pid) =
           (if capacity procs = size' procs then capacity procs * 2 else capacity procs)"
    using processesAdd_stores[OF h a(3), where block = block] a(4) l by simp
  then have "live (processesAdd block procs pid) = live procs @ [pid]"
    using stores_live l by simp
  moreover have "capacity (processesAdd block procs pid) = 2 * capacity procs"
    using r a(2) by simp
  ultimately show
    "capacity (processesAdd block (run_ops (createProcessArray block_init) ops) pid) =
        2 * capacity (run_ops (createProcessArray block_init) ops)"
    "live (processesAdd block (run_ops (createProcessArray block_init) ops) pid) =
        live (run_ops (createProcessArray block_init) ops) @ [pid]"
    by (simp_all add: procs_def)
qed

text \<open>
  The statement of C7 at the pids 5 and 7, and at the eleventh add, with blocks that hold no 0
  when \<^verbatim>\<open>malloc\<close> returns them.
\<close>

theorem registry_add_add_remove_and_growth_witness:
  "live (processesRemove (processesAdd stale (processesAdd stale (createProcessArray stale) 5) 7) 5)
     = [7] \<and>
   capacity (processesAdd stale (run_ops (createProcessArray stale)
       [Add stale 1, Add stale 2, Add stale 3, Add stale 4, Add stale 5,
        Add stale 6, Add stale 7, Add stale 8, Add stale 9, Add stale 10]) 11) = 20 \<and>
   live (processesAdd stale (run_ops (createProcessArray stale)
       [Add stale 1, Add stale 2, Add stale 3, Add stale 4, Add stale 5,
        Add stale 6, Add stale 7, Add stale 8, Add stale 9, Add stale 10]) 11) =
     [1, 2, 3, 4, 5, 6, 7, 8, 9, 10, 11]"
  using registry_add_add_remove_and_growth[where ?p1.0 = 5 and ?p2.0 = 7 and pid = 11
      and block_init = stale and block_a = stale and block_b = stale and block = stale
      and ops = "[Add stale 1, Add stale 2, Add stale 3, Add stale 4, Add stale 5,
        Add stale 6, Add stale 7, Add stale 8, Add stale 9, Add stale 10]"]
  unfolding eval_ten_adds
  by (simp add: live_def)

text \<open>
  C8. Whatever the blocks that \<^verbatim>\<open>malloc\<close> returns contain: after every history of adds
  of distinct non-zero pids and removes of live pids, the live pids occupy the first \<open>size'\<close> slots of the array, in insertion order and without a zero among
  them, every later slot is 0, and the size does not exceed the capacity; so the enumeration of
  \<^verbatim>\<open>cleanupProcs\<close> over the first \<open>size'\<close> slots meets no gap: it reports every live job
  that has terminated and leaves exactly the others.
\<close>

theorem registry_live_prefix_invariant:
  assumes "valid_ops [] ops"
  shows "size' (run_ops (createProcessArray block_init) ops) = int (length (pids_after [] ops)) \<and>
     size' (run_ops (createProcessArray block_init) ops) \<le> capacity (run_ops (createProcessArray block_init) ops) \<and>
     length (array (run_ops (createProcessArray block_init) ops)) = nat (capacity (run_ops (createProcessArray block_init) ops)) \<and>
     take (length (pids_after [] ops)) (array (run_ops (createProcessArray block_init) ops)) = pids_after [] ops \<and>
     0 \<notin> set (pids_after [] ops) \<and> distinct (pids_after [] ops) \<and>
     (\<forall>k. length (pids_after [] ops) \<le> k \<and> k < length (array (run_ops (createProcessArray block_init) ops)) \<longrightarrow>
          array (run_ops (createProcessArray block_init) ops) ! k = 0) \<and>
     (\<exists>procs'. cleanupProcs waitpid (run_ops (createProcessArray block_init) ops) out =
          Inr (procs', out @ reports waitpid (pids_after [] ops)) \<and>
        live procs' = filter (\<lambda>pid. waitpid pid = None) (pids_after [] ops))"
proof -
  define procs where "procs = run_ops (createProcessArray block_init) ops"
  define pids where "pids = pids_after [] ops"
  have h: "stores procs pids"
    unfolding procs_def pids_def by (rule run_ops_stores[OF createProcessArray_stores assms])
  have 1: "size' procs = int (length pids)" "size' procs \<le> capacity procs"
    "0 \<notin> set pids" "distinct pids"
    using h by (simp_all add: stores_def)
  have 2: "length (array procs) = nat (capacity procs)"
    by (rule stores_length(2)[OF h])
  have 3: "take (length pids) (array procs) = pids"
    using stores_live[OF h] 1(1) by (simp add: live_def)
  have 4: "\<forall>k. length pids \<le> k \<and> k < length (array procs) \<longrightarrow> array procs ! k = 0"
    using stores_tail_zero[OF h] by blast
  have h': "stores procs ([] @ pids)"
    using h by simp
  obtain procs' where c: "cleanup_loop waitpid procs (length ([]::int list)) out =
        Inr (procs', out @ reports waitpid pids)"
      "stores procs' ([] @ filter (\<lambda>pid. waitpid pid = None) pids)"
    using cleanup_loop_visits_all[OF h', of waitpid out] by blast
  have 5: "\<exists>procs'. cleanupProcs waitpid procs out = Inr (procs', out @ reports waitpid pids) \<and>
        live procs' = filter (\<lambda>pid. waitpid pid = None) pids"
    using c stores_live[OF c(2)] by (auto simp: cleanupProcs_def)
  show ?thesis
    using 1 2 3 4 5 unfolding procs_def pids_def by blast
qed

text \<open>
  The statement of C8 after \<open>add(5)\<close>, \<open>add(7)\<close>, \<open>remove(5)\<close>, \<open>add(9)\<close>, on an array
  whose block held no 0 when \<^verbatim>\<open>malloc\<close> returned it.
\<close>

theorem registry_live_prefix_invariant_witness:
  "valid_ops [] [Add stale 5, Add stale 7, Remove 5, Add stale 9] \<and>
   size' (run_ops (createProcessArray stale) [Add stale 5, Add stale 7, Remove 5, Add stale 9]) = 2 \<and>
   take 2 (array (run_ops (createProcessArray stale) [Add stale 5, Add stale 7, Remove 5, Add stale 9])) = [7, 9] \<and>
   array (run_ops (createProcessArray stale) [Add stale 5, Add stale 7, Remove 5, Add stale 9]) ! 2 = 0 \<and>
   (\<exists>procs'. cleanupProcs (\<lambda>pid. if pid = 7 then Some (WExited 0) else None)
        (run_ops (createProcessArray stale) [Add stale 5, Add stale 7, Remove 5, Add stale 9]) [] =
        Inr (procs', done_message 7 (WExited 0)) \<and> live procs' = [9])"
proof -
  have v: "valid_ops [] [Add stale 5, Add stale 7, Remove 5, Add stale 9]"
    by simp
  show ?thesis
    using v registry_live_prefix_invariant[OF v, where block_init = stale
        and waitpid = "\<lambda>pid. if pid = 7 then Some (WExited 0) else None" and out = "[]"]
    unfolding eval_mixed_ops by simp
qed

text \<open>
  C9, as the code has it. For every terminated argument array whose words fit the buffers and
  in which no word is \<^verbatim>\<open><\<close> or \<^verbatim>\<open>>\<close>, the last word is not \<^verbatim>\<open>&\<close>, and no word
  contains \<^verbatim>\<open>$$\<close>, directive parsing returns the array and the globals unchanged.
\<close>

theorem parseArgs_reduced_vector_unchanged:
  assumes "None \<in> set args" "short (argv args)"
    and "\<forall>w \<in> set (argv args). w \<noteq> ''<'' \<and> w \<noteq> ''>'' \<and> \<not> sublist ''$$'' w"
    and "argv args = [] \<or> last (argv args) \<noteq> ''&''"
  shows "parseArgs getpid g args = Inr (args, g)"
proof -
  have win: "window args 0 (argv args)"
    by (rule window_argv[OF assms(1)])
  have sh: "short (tl (argv args))"
    using assms(2) by (cases "argv args") (simp_all add: short_Cons)
  have pw: "parse_words getpid g (argv args) = (argv args, g)"
    by (rule parse_words_reduced[OF assms(3,4)])
  obtain args' where r: "parseArgs getpid g args = Inr (args', g)"
    "window args' 0 (argv args)" "length args' = length args"
    "\<forall>k>length (argv args). args' ! k = args ! k"
    using parseArgs_parse_words[OF win sh, of getpid g] unfolding pw by auto
  have "args' = args"
  proof (rule nth_equalityI)
    show "length args' = length args" by (rule r(3))
  next
    fix k assume "k < length args'"
    consider "k < length (argv args)" | "k = length (argv args)" | "k > length (argv args)"
      by linarith
    then show "args' ! k = args ! k"
    proof cases
      case 1
      then show ?thesis using win r(2) by (simp add: window_def)
    next
      case 2
      then show ?thesis using win r(2) by (simp add: window_def)
    next
      case 3
      then show ?thesis using r(4) by simp
    qed
  qed
  then show ?thesis using r(1) by simp
qed

text \<open>The statement of C9 at the words \<^verbatim>\<open>ls -l & x\<close>.\<close>

theorem parseArgs_reduced_vector_unchanged_witness:
  "parseArgs 1234 initial_globals (map Some [''ls'', ''-l'', ''&'', ''x''] @ replicate 508 None) =
     Inr (map Some [''ls'', ''-l'', ''&'', ''x''] @ replicate 508 None, initial_globals)"
proof (rule parseArgs_reduced_vector_unchanged)
  show "None \<in> set (map Some [''ls'', ''-l'', ''&'', ''x''] @ replicate 508 None)"
    by simp
  show "short (argv (map Some [''ls'', ''-l'', ''&'', ''x''] @ replicate 508 None))"
    unfolding eval_reduced_args by (simp add: short_def ARBITRARY_MAX_WORD_LENGTH_def)
  show "\<forall>w\<in>set (argv (map Some [''ls'', ''-l'', ''&'', ''x''] @ replicate 508 None)).
       w \<noteq> ''<'' \<and> w \<noteq> ''>'' \<and> \<not> sublist ''$$'' w"
    unfolding eval_reduced_args by (simp add: sublist_Cons_right)
  show "argv (map Some [''ls'', ''-l'', ''&'', ''x''] @ replicate 508 None) = [] \<or>
    last (argv (map Some [''ls'', ''-l'', ''&'', ''x''] @ replicate 508 None)) \<noteq> ''&''"
    unfolding eval_reduced_args by simp
qed

text \<open>
  C9 as stated fails: the vector \<^verbatim>\<open>echo $$\<close> has no \<^verbatim>\<open><\<close>, no \<^verbatim>\<open>>\<close> and no trailing
  \<^verbatim>\<open>&\<close>, and parsing changes it.
\<close>

theorem parseArgs_reduced_vector_counterexample:
  "parseArgs 1234 initial_globals (map Some [''echo'', ''$$''] @ replicate 510 None)
     = Inr (map Some [''echo'', ''1234''] @ replicate 510 None, initial_globals)"
  by code_simp

text \<open>
  C10. In every run of the loop of \<^verbatim>\<open>main\<close> from program start, as long as no foreground
  \<^verbatim>\<open>waitpid\<close> has returned, \<^verbatim>\<open>status\<close> has never been assigned, and the status command
  prints the message of the indeterminate initial content of \<^verbatim>\<open>status\<close>, not a default.
\<close>

theorem status_before_first_foreground_wait:
  assumes "run_main uninitialised getpid oss (main_init getpid block) = Inr (Continue sh)"
    and "foreground_waits sh = 0"
  shows "main_status sh = None \<and>
     stdout (main_globals (status_builtin uninitialised sh)) =
       stdout (main_globals sh) @ [status_message uninitialised]"
proof -
  have "main_status sh = None"
    using run_main_status[OF assms(1)] assms(2) by (simp add: main_init_def)
  then show ?thesis
    by (simp add: status_builtin_def)
qed

text \<open>The statement of C10 for the command \<^verbatim>\<open>status\<close> as the first line.\<close>

theorem status_before_first_foreground_wait_witness:
  "run_main \<lparr>code = 42, sig = False\<rparr> 1234 [idle_os (''status'' @ [CHR 0x0A])] (main_init 1234 stale) =
     Inr (Continue (main_init 1234 stale\<lparr>main_globals :=
          initial_globals\<lparr>stdout := [''shallsh pid: 1234'' @ [CHR 0x0A], '':'',
            ''exit value 42'' @ [CHR 0x0A]]\<rparr>,
      main_args := map Some [''status''] @ replicate 511 None\<rparr>)) \<and>
   main_status (main_init 1234 stale\<lparr>main_globals :=
          initial_globals\<lparr>stdout := [''shallsh pid: 1234'' @ [CHR 0x0A], '':'',
            ''exit value 42'' @ [CHR 0x0A]]\<rparr>,
      main_args := map Some [''status''] @ replicate 511 None\<rparr>) = None \<and>
   stdout (main_globals (status_builtin \<lparr>code = 42, sig = False\<rparr>
      (main_init 1234 stale\<lparr>main_globals :=
          initial_globals\<lparr>stdout := [''shallsh pid: 1234'' @ [CHR 0x0A], '':'',
            ''exit value 42'' @ [CHR 0x0A]]\<rparr>,
      main_args := map Some [''status''] @ replicate 511 None\<rparr>))) =
     [''shallsh pid: 1234'' @ [CHR 0x0A], '':'', ''exit value 42'' @ [CHR 0x0A],
      status_message \<lparr>code = 42, sig = False\<rparr>]"
proof -
  have w: "foreground_waits (main_init 1234 stale\<lparr>main_globals :=
          initial_globals\<lparr>stdout := [''shallsh pid: 1234'' @ [CHR 0x0A], '':'',
            ''exit value 42'' @ [CHR 0x0A]]\<rparr>,
      main_args := map Some [''status''] @ replicate 511 None\<rparr>) = 0"
    by (simp add: main_init_def)
  show ?thesis
    using status_before_first_foreground_wait[OF eval_status_run w] eval_status_run
    by simp
qed

end
